theory Spec2Isabelle
  imports Complex_Main "HOL-Library.Sublist" "HOL-Library.Word"
begin

section \<open>Python values\<close>

text \<open>
  The pipeline is a Python script. Its unbounded integers are modelled by \<open>int\<close>, its
  exceptions by values of \<open>py_error\<close> returned on the left of a sum. \<open>LibraryError\<close>
  stands for an exception of a library whose class the script does not fix.
\<close>

datatype py_error =
    ZeroDivisionError
  | ValueError
  | OverflowError
  | OSError
  | LibraryError
  | SystemExit int

type_synonym bytes = "8 word list"

section \<open>Python floats\<close>

text \<open>
  A Python float is an IEEE 754 binary64 number. It is modelled by the real number it
  stands for; a real of magnitude \<open>2 ^ 1024\<close> or more stands for an infinity. The
  operations round to nearest, ties to even, with 53 significant bits and a least
  exponent of \<open>-1022\<close> (so that subnormal numbers are multiples of \<open>2 powi (-1074)\<close>).

  \<open>ilog2 v\<close> is the binary exponent of a positive \<open>v\<close>: the \<open>e\<close> with
  \<open>2 powi e \<le> v < 2 powi (e + 1)\<close>.
\<close>

function ilog2 :: "real \<Rightarrow> int" where
  "ilog2 v =
     (if v \<le> 0 then 0
      else if 2 \<le> v then ilog2 (v / 2) + 1
      else if v < 1 then ilog2 (v * 2) - 1
      else 0)"
  by pat_completeness auto
termination
proof (relation "measure (\<lambda>v. nat \<lfloor>v\<rfloor> + 2 * nat \<lceil>1 / v\<rceil>)")
  show "wf (measure (\<lambda>v. nat \<lfloor>v\<rfloor> + 2 * nat \<lceil>1 / v\<rceil>))" by simp
next
  fix v :: real
  assume a: "\<not> v \<le> 0" "2 \<le> v"
  have f: "\<lfloor>v / 2\<rfloor> < \<lfloor>v\<rfloor>"
  proof -
    have "v / 2 \<le> v - 1" using a by simp
    then have "\<lfloor>v / 2\<rfloor> \<le> \<lfloor>v - 1\<rfloor>" by (rule floor_mono)
    then show ?thesis by simp
  qed
  have p: "0 \<le> \<lfloor>v / 2\<rfloor>" using a by simp
  have c1: "\<lceil>2 / v\<rceil> = 1"
    using a by (intro ceiling_unique) simp_all
  have c2: "\<lceil>1 / v\<rceil> = 1"
    using a by (intro ceiling_unique) simp_all
  show "(v / 2, v) \<in> measure (\<lambda>v. nat \<lfloor>v\<rfloor> + 2 * nat \<lceil>1 / v\<rceil>)"
    using f p a by (simp add: c1 c2)
next
  fix v :: real
  assume a: "\<not> v \<le> 0" "\<not> 2 \<le> v" "v < 1"
  show "(v * 2, v) \<in> measure (\<lambda>v. nat \<lfloor>v\<rfloor> + 2 * nat \<lceil>1 / v\<rceil>)"
  proof (cases "v < 1 / 2")
    case True
    have f0: "\<lfloor>v\<rfloor> = 0" using a by (intro floor_unique) simp_all
    have f1: "\<lfloor>v * 2\<rfloor> = 0" using a True by (intro floor_unique) simp_all
    have "2 < 1 / v" using a True by (simp add: field_simps)
    then have "1 / (v * 2) \<le> 1 / v - 1" by (simp add: field_simps)
    then have "\<lceil>1 / (v * 2)\<rceil> \<le> \<lceil>1 / v - 1\<rceil>" by (rule ceiling_mono)
    then have lt: "\<lceil>1 / (v * 2)\<rceil> < \<lceil>1 / v\<rceil>" by simp
    have "0 < 1 / (v * 2)" using a by simp
    then have "0 < \<lceil>1 / (v * 2)\<rceil>" by (simp only: zero_less_ceiling)
    with lt show ?thesis by (simp add: f0 f1)
  next
    case False
    have f0: "\<lfloor>v\<rfloor> = 0" using a by (intro floor_unique) simp_all
    have f1: "\<lfloor>v * 2\<rfloor> = 1" using a False by (intro floor_unique) simp_all
    have c1: "\<lceil>1 / (v * 2)\<rceil> = 1"
      using a False by (intro ceiling_unique) (simp_all add: field_simps)
    have c2: "\<lceil>1 / v\<rceil> = 2"
      using a False by (intro ceiling_unique) (simp_all add: field_simps)
    show ?thesis by (simp add: f0 f1 c1 c2)
  qed
qed

declare ilog2.simps [simp del]

text \<open>Rounding to the nearest integer, a tie going to the even one.\<close>

definition round_half_even :: "real \<Rightarrow> int" where
  "round_half_even v =
     (if v - real_of_int \<lfloor>v\<rfloor> < 1 / 2 then \<lfloor>v\<rfloor>
      else if 1 / 2 < v - real_of_int \<lfloor>v\<rfloor> then \<lfloor>v\<rfloor> + 1
      else if even \<lfloor>v\<rfloor> then \<lfloor>v\<rfloor> else \<lfloor>v\<rfloor> + 1)"

text \<open>
  The spacing of the binary64 numbers around \<open>v\<close>, and \<open>v\<close> rounded to the nearest of
  them, with no bound on the exponent from above.
\<close>

definition f64_ulp :: "real \<Rightarrow> real" where
  "f64_ulp v = 2 powi (max (ilog2 \<bar>v\<bar>) (- 1022) - 52)"

definition f64_round :: "real \<Rightarrow> real" where
  "f64_round v = real_of_int (round_half_even (v / f64_ulp v)) * f64_ulp v"

text \<open>
  The positive binary64 numbers, with no bound on the exponent from above: at most 53
  significant bits, and a multiple of \<open>2 powi (-1074)\<close>.
\<close>

definition f64_value :: "real \<Rightarrow> bool" where
  "f64_value r = (\<exists>m e. 0 < m \<and> m < 2 ^ 53 \<and> - 1074 \<le> e \<and> r = real_of_int m * 2 powi e)"

text \<open>
  \<open>a / b\<close> on two integers is the correctly rounded quotient; it raises on a zero
  divisor and when the result is too large for a float. An integer operand of a float
  operation is converted first, which raises when it is too large.
\<close>

definition int_truediv :: "int \<Rightarrow> int \<Rightarrow> py_error + real" where
  "int_truediv a b =
     (if b = 0 then Inl ZeroDivisionError
      else if 2 ^ 1024 \<le> \<bar>f64_round (real_of_int a / real_of_int b)\<bar> then Inl OverflowError
      else Inr (f64_round (real_of_int a / real_of_int b)))"

definition int_to_float :: "int \<Rightarrow> py_error + real" where
  "int_to_float i =
     (if 2 ^ 1024 \<le> \<bar>f64_round (real_of_int i)\<bar> then Inl OverflowError
      else Inr (f64_round (real_of_int i)))"

text \<open>
  Division and multiplication of floats: a zero divisor raises, a result that is too
  large is an infinity and does not raise.
\<close>

definition float_truediv :: "real \<Rightarrow> real \<Rightarrow> py_error + real" where
  "float_truediv a b = (if b = 0 then Inl ZeroDivisionError else Inr (f64_round (a / b)))"

definition float_mul :: "real \<Rightarrow> real \<Rightarrow> real" where
  "float_mul a b = f64_round (a * b)"

text \<open>\<open>math.sqrt\<close> raises on a negative argument and rounds the root correctly.\<close>

definition math_sqrt :: "real \<Rightarrow> py_error + real" where
  "math_sqrt v = (if v < 0 then Inl ValueError else Inr (f64_round (sqrt v)))"

text \<open>Python's \<open>int(x)\<close> on a float truncates towards zero and raises on an infinity.\<close>

definition py_int :: "real \<Rightarrow> py_error + int" where
  "py_int v =
     (if 2 ^ 1024 \<le> \<bar>v\<bar> then Inl OverflowError
      else Inr (if 0 \<le> v then \<lfloor>v\<rfloor> else \<lceil>v\<rceil>))"

text \<open>
  The integer square root, and with it the square root of a non-negative real rounded
  half-even to an integer: they make \<open>math_sqrt\<close> computable (lemma
  \<open>math_sqrt_code\<close> below).
\<close>

function isqrt :: "int \<Rightarrow> int" where
  "isqrt n =
     (if n < 4 then (if n \<le> 0 then 0 else 1)
      else let r = 2 * isqrt (n div 4) in if (r + 1) * (r + 1) \<le> n then r + 1 else r)"
  by pat_completeness auto
termination
  by (relation "measure nat") simp_all

declare isqrt.simps [simp del]

definition rhe_sqrt :: "real \<Rightarrow> int" where
  "rhe_sqrt v =
     (let f = isqrt \<lfloor>v\<rfloor>; t = real_of_int (f * f + f) + 1 / 4 in
      if v < t then f else if t < v then f + 1 else if even f then f else f + 1)"

section \<open>Collage layout\<close>

text \<open>
  Lines 494 to 498 of \<open>build_collages_for_33T\<close>:
  \<^verbatim>\<open>
    cols = max(3, min(12, int(math.ceil(math.sqrt(n * base_w / base_h)))))
    rows = int(math.ceil(n / cols))
    cell_w = base_w // cols
    cell_h = base_h // rows
  \<close>
  \<open>/\<close> raises on a zero divisor and on a quotient too large for a float,
  \<open>math.sqrt\<close> on a negative argument and \<open>//\<close> on a zero divisor. \<open>math.ceil\<close>
  returns an integer, on which \<open>int\<close> is the identity. Python's \<open>//\<close> on integers
  rounds towards minus infinity, as \<open>div\<close> on \<open>int\<close> does.
\<close>

record layout =
  cols :: int
  rows :: int
  cell_w :: int
  cell_h :: int

definition solve_layout :: "int \<Rightarrow> int \<Rightarrow> int \<Rightarrow> py_error + layout" where
  "solve_layout n base_w base_h =
     (case int_truediv (n * base_w) base_h of
        Inl e \<Rightarrow> Inl e
      | Inr q \<Rightarrow>
          (case math_sqrt q of
             Inl e \<Rightarrow> Inl e
           | Inr s \<Rightarrow>
               let cs = max 3 (min 12 \<lceil>s\<rceil>) in
               (case int_truediv n cs of
                  Inl e \<Rightarrow> Inl e
                | Inr v \<Rightarrow>
                    let rs = \<lceil>v\<rceil> in
                    if rs = 0 then Inl ZeroDivisionError
                    else Inr \<lparr>cols = cs, rows = rs,
                              cell_w = base_w div cs, cell_h = base_h div rs\<rparr>)))"

text \<open>
  The column count by integer arithmetic only: the least \<open>k\<close> between 3 and 12 whose
  square, times the divisor, reaches the dividend. It is what the exact square root and
  the ceiling give (lemma \<open>cols_of_real\<close> below).
\<close>

fun cols_search :: "int \<Rightarrow> int \<Rightarrow> int list \<Rightarrow> int" where
  "cols_search a b [] = 12"
| "cols_search a b (k # ks) = (if a \<le> k * k * b then k else cols_search a b ks)"

definition cols_int :: "int \<Rightarrow> int \<Rightarrow> int" where
  "cols_int a b = cols_search a b [3, 4, 5, 6, 7, 8, 9, 10, 11]"

text \<open>The layout as the specification words it, for comparison with \<open>solve_layout\<close>.\<close>

definition clamp :: "int \<Rightarrow> int \<Rightarrow> int \<Rightarrow> int" where
  "clamp v lo hi = (if v < lo then lo else if hi < v then hi else v)"

definition spec_layout :: "int \<Rightarrow> int \<Rightarrow> int \<Rightarrow> layout" where
  "spec_layout n canvas_w canvas_h =
     (let c = clamp \<lceil>sqrt (real_of_int n * real_of_int canvas_w / real_of_int canvas_h)\<rceil> 3 12;
          r = \<lceil>real_of_int n / real_of_int c\<rceil>
      in \<lparr>cols = c, rows = r, cell_w = canvas_w div c, cell_h = canvas_h div r\<rparr>)"

section \<open>Images, files and the library environment\<close>

text \<open>
  A decoded image is its size and its pixel data. What the script asks of Pillow, of
  \<open>requests\<close>, of the file system and of the codecs is not part of the script; each such
  call is a field of the environment, with \<open>None\<close> (or \<open>False\<close>) where the call
  raises. The calls on the canvas are recorded as they are made, in a \<open>picture\<close>. Of
  Pillow's own checks the model has the two that depend on the sizes alone:
  \<open>Image.new\<close> raises \<open>ValueError\<close> on a negative width or height, and
  \<open>resize\<close> raises \<open>ValueError\<close> when a side of the target size is below 1. Saving
  the cover to its file raises \<open>OSError\<close> when the environment refuses the write.
  Exhaustion of memory is not modelled.
\<close>

record image =
  width :: nat
  height :: nat
  pixels :: "nat list"

datatype path = Path string | Join path string

record response =
  ok :: bool
  content :: bytes

record paste =
  resized_from :: image
  new_w :: int
  new_h :: int
  at_x :: int
  at_y :: int

datatype picture =
    Canvas int int "nat \<times> nat \<times> nat" "paste list"
  | GaussianBlur nat picture

record env =
  requests_get :: "string \<Rightarrow> response option"
  image_open_bytes :: "bytes \<Rightarrow> image option"
  image_open_path :: "path \<Rightarrow> image option"
  is_absolute :: "path \<Rightarrow> bool"
  path_exists :: "path \<Rightarrow> bool"
  file_save_ok :: "path \<Rightarrow> bool"
  png_encode :: "picture \<Rightarrow> bytes"
  b64encode :: "bytes \<Rightarrow> string"
  utf8_encode :: "string \<Rightarrow> bytes"
  os_urandom :: "nat \<Rightarrow> 8 word"
  pbkdf2_hmac_sha256 :: "nat \<Rightarrow> bytes \<Rightarrow> int \<Rightarrow> bytes \<Rightarrow> bytes"
  aesgcm_encrypt :: "bytes \<Rightarrow> bytes \<Rightarrow> bytes \<Rightarrow> bytes option \<Rightarrow> bytes"

record VideoTile =
  url :: string
  platform :: string
  embed_html :: "string option"
  open_url :: string
  thumb_src :: "string option"
  thumb_src_collage :: "string option"

datatype message =
    MsgCollageDisabled
  | MsgNoThumbnails
  | MsgLoadFailed
  | MsgBuilding int layout int int
  | MsgRealEncoded
  | MsgCoverSaved path
  | MsgAesPrompt
  | MsgEmptyPassword

text \<open>Strings lower-cased on the ASCII letters, as the prefix test of the loader needs.\<close>

definition lower_char :: "char \<Rightarrow> char" where
  "lower_char c =
     (if 65 \<le> (of_char c :: nat) \<and> (of_char c :: nat) \<le> 90
      then char_of (of_char c + 32 :: nat) else c)"

definition lower :: "string \<Rightarrow> string" where
  "lower s = map lower_char s"

text \<open>
  \<open>download_image_to_pil\<close>: every exception is caught and turned into \<open>None\<close>, as
  is a response that is not ok and a local file that does not exist.
\<close>

definition download_image_to_pil :: "env \<Rightarrow> string \<Rightarrow> path \<Rightarrow> image option" where
  "download_image_to_pil E src rt =
     (if prefix ''http://'' (lower src) \<or> prefix ''https://'' (lower src) then
        (case requests_get E src of
           None \<Rightarrow> None
         | Some r \<Rightarrow> if \<not> ok r then None else image_open_bytes E (content r))
      else
        let p = (if \<not> is_absolute E (Path src) then Join rt src else Path src)
        in if \<not> path_exists E p then None else image_open_path E p)"

section \<open>The collage builder\<close>

text \<open>The first loop: the sources of the tiles that have one, up to \<open>max_cells\<close>.\<close>

fun collect_thumb_srcs :: "VideoTile list \<Rightarrow> int \<Rightarrow> string list \<Rightarrow> string list" where
  "collect_thumb_srcs [] max_cells thumb_srcs = thumb_srcs"
| "collect_thumb_srcs (t # ts) max_cells thumb_srcs =
     (case thumb_src_collage t of
        None \<Rightarrow> collect_thumb_srcs ts max_cells thumb_srcs
      | Some s \<Rightarrow>
          if s = [] then collect_thumb_srcs ts max_cells thumb_srcs
          else if int (length (thumb_srcs @ [s])) \<ge> max_cells then thumb_srcs @ [s]
          else collect_thumb_srcs ts max_cells (thumb_srcs @ [s]))"

text \<open>The second loop: the images that load, in the order of their sources.\<close>

fun load_images :: "env \<Rightarrow> path \<Rightarrow> string list \<Rightarrow> image list" where
  "load_images E rt [] = []"
| "load_images E rt (src # srcs) =
     (case download_image_to_pil E src rt of
        None \<Rightarrow> load_images E rt srcs
      | Some im \<Rightarrow> im # load_images E rt srcs)"

text \<open>
  Lines 514 to 521: the size of the image scaled to fit the cell, in floats.
  \<^verbatim>\<open>
    im_ratio = im.width / im.height
    cell_ratio = cell_w / cell_h
    if im_ratio > cell_ratio:
        new_w = cell_w
        new_h = int(cell_w / im_ratio)
    else:
        new_h = cell_h
        new_w = int(cell_h * im_ratio)
  \<close>
  The result is the pair \<open>(new_w, new_h)\<close>.
\<close>

definition scaled_size :: "layout \<Rightarrow> image \<Rightarrow> py_error + int \<times> int" where
  "scaled_size L im =
     (case int_truediv (int (width im)) (int (height im)) of
        Inl e \<Rightarrow> Inl e
      | Inr im_ratio \<Rightarrow>
          (case int_truediv (cell_w L) (cell_h L) of
             Inl e \<Rightarrow> Inl e
           | Inr cell_ratio \<Rightarrow>
               if im_ratio > cell_ratio then
                 (case int_to_float (cell_w L) of
                    Inl e \<Rightarrow> Inl e
                  | Inr cw \<Rightarrow>
                      (case float_truediv cw im_ratio of
                         Inl e \<Rightarrow> Inl e
                       | Inr v \<Rightarrow>
                           (case py_int v of
                              Inl e \<Rightarrow> Inl e
                            | Inr nh \<Rightarrow> Inr (cell_w L, nh))))
               else
                 (case int_to_float (cell_h L) of
                    Inl e \<Rightarrow> Inl e
                  | Inr ch \<Rightarrow>
                      (case py_int (float_mul ch im_ratio) of
                         Inl e \<Rightarrow> Inl e
                       | Inr nw \<Rightarrow> Inr (nw, cell_h L)))))"

text \<open>
  The body of the placement loop for the image at index \<open>idx\<close>, after the capacity
  test: the image is resized to its scaled size, which raises when a side is below 1,
  and pasted centred in the cell at column \<open>idx % cols\<close> and row \<open>idx // cols\<close>.
\<close>

definition place_image :: "layout \<Rightarrow> int \<Rightarrow> image \<Rightarrow> py_error + paste" where
  "place_image L idx im =
     (let r = idx div cols L; c = idx mod cols L in
      case scaled_size L im of
        Inl e \<Rightarrow> Inl e
      | Inr (nw, nh) \<Rightarrow>
          if nw < 1 \<or> nh < 1 then Inl ValueError
          else Inr \<lparr>resized_from = im, new_w = nw, new_h = nh,
                    at_x = c * cell_w L + (cell_w L - nw) div 2,
                    at_y = r * cell_h L + (cell_h L - nh) div 2\<rparr>)"

text \<open>
  The placement loop, \<open>for idx, im in enumerate(imgs)\<close>, with its \<open>break\<close> when the row
  of the index is not below \<open>rows\<close>. The pastes made so far are the accumulator.
\<close>

fun paste_loop :: "layout \<Rightarrow> int \<Rightarrow> image list \<Rightarrow> paste list \<Rightarrow> py_error + paste list" where
  "paste_loop L idx [] pasted = Inr pasted"
| "paste_loop L idx (im # ims) pasted =
     (if idx div cols L \<ge> rows L then Inr pasted
      else case place_image L idx im of
             Inl e \<Rightarrow> Inl e
           | Inr p \<Rightarrow> paste_loop L (idx + 1) ims (pasted @ [p]))"

text \<open>The same loop without the capacity test, to compare with.\<close>

fun paste_all :: "layout \<Rightarrow> int \<Rightarrow> image list \<Rightarrow> paste list \<Rightarrow> py_error + paste list" where
  "paste_all L idx [] pasted = Inr pasted"
| "paste_all L idx (im # ims) pasted =
     (case place_image L idx im of
        Inl e \<Rightarrow> Inl e
      | Inr p \<Rightarrow> paste_all L (idx + 1) ims (pasted @ [p]))"

text \<open>
  What \<open>encrypt_html_aes_gcm\<close> returns, and the three pages that \<open>main\<close> can write as
  its B file. The markup around the fields of a wrapper is not modelled.
\<close>

record envelope =
  salt_b64 :: string
  iv_b64 :: string
  ct_b64 :: string
  iterations :: int

datatype page =
    PlainHtml string
  | ObfuscatedWrapper string
  | AesWrapper envelope "string option"

text \<open>What a run does to the outside: the lines it prints and the files it writes.\<close>

datatype event =
    Print message
  | SaveFile path picture
  | Getpass
  | OsUrandom nat
  | KdfDerive bytes
  | AesGcmEncrypt bytes bytes
  | WriteText path page

text \<open>
  Lines 492 to 543: layout, canvas, placement, data URI and blurred cover. The line
  about the layout is printed before the canvas is made.
\<close>

definition compose_collage ::
  "env \<Rightarrow> image list \<Rightarrow> path \<Rightarrow> int \<Rightarrow> int \<Rightarrow> string
     \<Rightarrow> (py_error + (string option \<times> path option)) \<times> event list" where
  "compose_collage E imgs repo_root base_w base_h timestamp =
     (let n = int (length imgs) in
      case solve_layout n base_w base_h of
        Inl e \<Rightarrow> (Inl e, [])
      | Inr L \<Rightarrow>
          if base_w < 0 \<or> base_h < 0 then (Inl ValueError, [Print (MsgBuilding n L base_w base_h)])
          else
            (case paste_loop L 0 imgs [] of
               Inl e \<Rightarrow> (Inl e, [Print (MsgBuilding n L base_w base_h)])
             | Inr ps \<Rightarrow>
                 let collage = Canvas base_w base_h (0, 0, 0) ps;
                     real_data_uri = ''data:image/png;base64,'' @ b64encode E (png_encode E collage);
                     cover = GaussianBlur 9 collage;
                     cover_path = Join repo_root (''grid-cover-'' @ timestamp @ ''.png'')
                 in if \<not> file_save_ok E cover_path then
                      (Inl OSError, [Print (MsgBuilding n L base_w base_h), Print MsgRealEncoded])
                    else
                      (Inr (Some real_data_uri, Some cover_path),
                       [Print (MsgBuilding n L base_w base_h), Print MsgRealEncoded,
                        SaveFile cover_path cover, Print (MsgCoverSaved cover_path)])))"

definition build_collages_for_33T ::
  "env \<Rightarrow> VideoTile list \<Rightarrow> path \<Rightarrow> int \<Rightarrow> int \<Rightarrow> int \<Rightarrow> string
     \<Rightarrow> (py_error + (string option \<times> path option)) \<times> event list" where
  "build_collages_for_33T E tiles repo_root max_cells base_w base_h timestamp =
     (if max_cells \<le> 0 then (Inr (None, None), [Print MsgCollageDisabled])
      else
        let thumb_srcs = collect_thumb_srcs tiles max_cells [] in
        if thumb_srcs = [] then (Inr (None, None), [Print MsgNoThumbnails])
        else
          let imgs = load_images E repo_root thumb_srcs in
          if imgs = [] then (Inr (None, None), [Print MsgLoadFailed])
          else compose_collage E imgs repo_root base_w base_h timestamp)"

section \<open>The AES lock\<close>

text \<open>
  \<open>encrypt_html_aes_gcm\<close>: a 16-byte salt and a 12-byte IV from \<open>os.urandom\<close>, a 32-byte
  key by PBKDF2-HMAC-SHA256, AES-GCM without associated data. The model records each
  call of the random source, of the KDF and of the cipher as an event. The KDF of the
  cryptography package refuses an iteration count below 1 with an exception, before it
  derives anything.
\<close>

definition encrypt_html_aes_gcm ::
  "env \<Rightarrow> string \<Rightarrow> string \<Rightarrow> int \<Rightarrow> (py_error + envelope) \<times> event list" where
  "encrypt_html_aes_gcm E html password iters =
     (let password_bytes = utf8_encode E password;
          salt = map (os_urandom E) [0..<16];
          iv = map (os_urandom E) [16..<28]
      in if iters < 1 then (Inl LibraryError, [OsUrandom 16, OsUrandom 12])
         else
           let key = pbkdf2_hmac_sha256 E 32 salt iters password_bytes;
               ciphertext = aesgcm_encrypt E key iv (utf8_encode E html) None
           in (Inr \<lparr>salt_b64 = b64encode E salt, iv_b64 = b64encode E iv,
                    ct_b64 = b64encode E ciphertext, iterations = iters\<rparr>,
               [OsUrandom 16, OsUrandom 12, KdfDerive password_bytes,
                AesGcmEncrypt iv (utf8_encode E html)]))"

definition PUBLIC_BASE_URL :: string where
  "PUBLIC_BASE_URL = ''https://agatasiwekjendobrezakopane4eve.github.io/VD3''"

definition make_aes_protected_wrapper ::
  "env \<Rightarrow> string \<Rightarrow> string \<Rightarrow> string option \<Rightarrow> (py_error + page) \<times> event list" where
  "make_aes_protected_wrapper E html password og_image_rel =
     (case encrypt_html_aes_gcm E html password 100000 of
        (Inl e, evs) \<Rightarrow> (Inl e, evs)
      | (Inr sealed, evs) \<Rightarrow>
          let og_meta = (case og_image_rel of
                           None \<Rightarrow> None
                         | Some rel \<Rightarrow> if rel = [] then None
                                       else Some (PUBLIC_BASE_URL @ ''/'' @ rel))
          in (Inr (AesWrapper sealed og_meta), evs))"

text \<open>
  Lines 1306 to 1318 of \<open>main\<close>, the writing of the B file. \<open>pw\<close> is what \<open>getpass\<close>
  returns when it is called; \<open>sys.exit(1)\<close> is the error \<open>SystemExit 1\<close>.
\<close>

definition write_html_b ::
  "env \<Rightarrow> bool \<Rightarrow> bool \<Rightarrow> string \<Rightarrow> string \<Rightarrow> string option \<Rightarrow> path
     \<Rightarrow> (py_error + unit) \<times> event list" where
  "write_html_b E aes_lock obfuscate html pw og_image_rel html_b_path =
     (if aes_lock then
        (if pw = [] then
           (Inl (SystemExit 1), [Print MsgAesPrompt, Getpass, Print MsgEmptyPassword])
         else
           (case make_aes_protected_wrapper E html pw og_image_rel of
              (Inl e, evs) \<Rightarrow> (Inl e, [Print MsgAesPrompt, Getpass] @ evs)
            | (Inr wrapper_html, evs) \<Rightarrow>
                (Inr (), [Print MsgAesPrompt, Getpass] @ evs @ [WriteText html_b_path wrapper_html])))
      else if obfuscate then (Inr (), [WriteText html_b_path (ObfuscatedWrapper html)])
      else (Inr (), [WriteText html_b_path (PlainHtml html)]))"

text \<open>The events that are key derivation or other cryptographic work.\<close>

fun is_crypto :: "event \<Rightarrow> bool" where
  "is_crypto (OsUrandom n) = True"
| "is_crypto (KdfDerive p) = True"
| "is_crypto (AesGcmEncrypt iv d) = True"
| "is_crypto e = False"

text \<open>The files saved during a run, in order.\<close>

fun saved_files :: "event list \<Rightarrow> (path \<times> picture) list" where
  "saved_files [] = []"
| "saved_files (SaveFile p pic # es) = (p, pic) # saved_files es"
| "saved_files (e # es) = saved_files es"


section \<open>A small environment\<close>

text \<open>
  An environment for concrete runs: no network, and a file system whose only file is
  \<open>./b.png\<close>, an image of 800 by 400. The codecs and the cipher are placeholders.
\<close>

definition b_png :: image where
  "b_png = \<lparr>width = 800, height = 400, pixels = []\<rparr>"

definition one_file_env :: env where
  "one_file_env =
     \<lparr>requests_get = (\<lambda>u. None),
      image_open_bytes = (\<lambda>b. None),
      image_open_path = (\<lambda>p. if p = Join (Path ''.'') ''b.png'' then Some b_png else None),
      is_absolute = (\<lambda>p. False),
      path_exists = (\<lambda>p. p = Join (Path ''.'') ''b.png''),
      file_save_ok = (\<lambda>p. True),
      png_encode = (\<lambda>pic. []),
      b64encode = (\<lambda>b. []),
      utf8_encode = (\<lambda>s. map of_char s),
      os_urandom = (\<lambda>i. 0),
      pbkdf2_hmac_sha256 = (\<lambda>n salt iters pw. replicate n 0),
      aesgcm_encrypt = (\<lambda>key iv d aad. d)\<rparr>"

text \<open>The same with a second file, \<open>./thin.png\<close>, an image of 700 by 1.\<close>

definition thin_png :: image where
  "thin_png = \<lparr>width = 700, height = 1, pixels = []\<rparr>"

definition two_file_env :: env where
  "two_file_env =
     one_file_env
       \<lparr>image_open_path :=
          (\<lambda>p. if p = Join (Path ''.'') ''b.png'' then Some b_png
                else if p = Join (Path ''.'') ''thin.png'' then Some thin_png else None),
        path_exists := (\<lambda>p. p = Join (Path ''.'') ''b.png'' \<or> p = Join (Path ''.'') ''thin.png'')\<rparr>"

definition tile_of :: "string \<Rightarrow> VideoTile" where
  "tile_of s = \<lparr>url = s, platform = ''other'', embed_html = None, open_url = s,
               thumb_src = None, thumb_src_collage = Some s\<rparr>"

section \<open>Rounding to binary64: exactness and monotonicity\<close>

lemma ilog2_bounds:
  assumes "0 < v"
  shows "2 powi ilog2 v \<le> v \<and> v < 2 powi (ilog2 v + 1)"
  using assms
proof (induction v rule: ilog2.induct)
  case (1 v)
  show ?case
  proof (cases "2 \<le> v")
    case True
    then have e: "ilog2 v = ilog2 (v / 2) + 1"
      using "1.prems" by (subst ilog2.simps) simp
    have ih: "2 powi ilog2 (v / 2) \<le> v / 2 \<and> v / 2 < 2 powi (ilog2 (v / 2) + 1)"
      using "1.IH"(1) "1.prems" True by simp
    show ?thesis
      unfolding e using ih by (simp add: power_int_add field_simps)
  next
    case nb: False
    show ?thesis
    proof (cases "v < 1")
      case True
      then have e: "ilog2 v = ilog2 (v * 2) - 1"
        using "1.prems" nb by (subst ilog2.simps) simp
      have ih: "2 powi ilog2 (v * 2) \<le> v * 2 \<and> v * 2 < 2 powi (ilog2 (v * 2) + 1)"
        using "1.IH"(2) "1.prems" nb True by simp
      show ?thesis
        unfolding e using ih by (simp add: power_int_add power_int_diff field_simps)
    next
      case False
      then have e: "ilog2 v = 0"
        using "1.prems" nb by (subst ilog2.simps) simp
      show ?thesis unfolding e using nb False by simp
    qed
  qed
qed



lemma pow2_less_iff: "((2::real) powi a < 2 powi b) = (a < b)"
proof
  assume l: "(2::real) powi a < 2 powi b"
  show "a < b"
  proof (rule ccontr)
    assume "\<not> a < b"
    then have "b \<le> a" by simp
    then have "(2::real) powi b \<le> 2 powi a" by (intro power_int_increasing) simp_all
    with l show False by simp
  qed
next
  assume "a < b"
  then show "(2::real) powi a < 2 powi b" by (intro power_int_strict_increasing) simp_all
qed

lemma pow2_le_iff: "((2::real) powi a \<le> 2 powi b) = (a \<le> b)"
  using pow2_less_iff [of b a] by (simp add: not_less [symmetric] del: not_less)

lemma ilog2_unique:
  assumes "0 < v" "2 powi e \<le> v" "v < 2 powi (e + 1)"
  shows "ilog2 v = e"
proof -
  note b = ilog2_bounds [OF assms(1)]
  have "2 powi ilog2 v < (2::real) powi (e + 1)" using b assms(3) by linarith
  then have u: "ilog2 v < e + 1" by (simp only: pow2_less_iff)
  have "(2::real) powi e < 2 powi (ilog2 v + 1)" using b assms(2) by linarith
  then have l: "e < ilog2 v + 1" by (simp only: pow2_less_iff)
  from u l show ?thesis by simp
qed

lemma ilog2_mono:
  assumes "0 < v" "v \<le> w"
  shows "ilog2 v \<le> ilog2 w"
proof (rule ccontr)
  assume "\<not> ilog2 v \<le> ilog2 w"
  then have "ilog2 w + 1 \<le> ilog2 v" by simp
  then have "(2::real) powi (ilog2 w + 1) \<le> 2 powi ilog2 v" by (simp only: pow2_le_iff)
  moreover have "w < 2 powi (ilog2 w + 1)" using ilog2_bounds [of w] assms by simp
  moreover have "2 powi ilog2 v \<le> v" using ilog2_bounds [OF assms(1)] by simp
  ultimately show False using assms(2) by linarith
qed

lemma rhe_of_int [simp]: "round_half_even (real_of_int k) = k"
  by (simp add: round_half_even_def)

lemma rhe_ge_floor: "\<lfloor>v\<rfloor> \<le> round_half_even v"
  by (simp add: round_half_even_def)

lemma rhe_le_floor1: "round_half_even v \<le> \<lfloor>v\<rfloor> + 1"
  by (simp add: round_half_even_def)

lemma rhe_mono:
  assumes "v \<le> w"
  shows "round_half_even v \<le> round_half_even w"
proof (cases "\<lfloor>v\<rfloor> = \<lfloor>w\<rfloor>")
  case True
  then show ?thesis
    using assms by (auto simp: round_half_even_def)
next
  case False
  moreover have "\<lfloor>v\<rfloor> \<le> \<lfloor>w\<rfloor>" using assms by (rule floor_mono)
  ultimately have "\<lfloor>v\<rfloor> + 1 \<le> \<lfloor>w\<rfloor>" by simp
  then show ?thesis
    using rhe_le_floor1 [of v] rhe_ge_floor [of w] by linarith
qed

lemma rhe_ge_int:
  assumes "real_of_int k \<le> v"
  shows "k \<le> round_half_even v"
  using rhe_mono [OF assms] by simp

lemma rhe_le_int:
  assumes "v \<le> real_of_int k"
  shows "round_half_even v \<le> k"
  using rhe_mono [OF assms] by simp

lemma f64_ulp_pos: "0 < f64_ulp v"
  by (simp add: f64_ulp_def)

lemma f64_round_0 [simp]: "f64_round 0 = 0"
  by (simp add: f64_round_def round_half_even_def)

lemma f64_round_nonneg:
  assumes "0 \<le> v"
  shows "0 \<le> f64_round v"
proof -
  have "real_of_int 0 \<le> v / f64_ulp v" using assms f64_ulp_pos [of v] by simp
  then have "0 \<le> round_half_even (v / f64_ulp v)" by (rule rhe_ge_int)
  then show ?thesis using f64_ulp_pos [of v] by (simp add: f64_round_def)
qed

lemma f64_round_exact:
  assumes m: "0 < m" "m < 2 ^ 53" and e: "- 1074 \<le> e"
  shows "f64_round (real_of_int m * 2 powi e) = real_of_int m * 2 powi e"
proof -
  define v where "v = real_of_int m * 2 powi e"
  define E where "E = max (ilog2 \<bar>v\<bar>) (- 1022)"
  have vpos: "0 < v" using m by (simp add: v_def)
  have ulp: "f64_ulp v = 2 powi (E - 52)" by (simp add: f64_ulp_def E_def)
  have ge: "E - 52 \<le> e"
  proof (rule ccontr)
    assume "\<not> E - 52 \<le> e"
    then have lt: "e + 53 \<le> E" by simp
    have "E \<noteq> - 1022" using lt e by simp
    then have El: "E = ilog2 v" using vpos by (simp add: E_def max_def split: if_splits)
    have "2 powi E \<le> v" using ilog2_bounds [OF vpos] El by simp
    moreover have "v < 2 ^ 53 * 2 powi e"
      using m by (simp add: v_def)
    moreover have "(2::real) ^ 53 * 2 powi e = 2 powi (e + 53)"
      by (simp add: power_int_add)
    moreover have "(2::real) powi (e + 53) \<le> 2 powi E"
      using lt by (simp only: pow2_le_iff)
    ultimately show False by linarith
  qed
  define d where "d = nat (e - (E - 52))"
  have de: "e = (E - 52) + int d" using ge by (simp add: d_def)
  have "(2::real) powi e = 2 powi (E - 52) * 2 ^ d"
    by (subst de) (simp add: power_int_add)
  then have "v = real_of_int m * 2 ^ d * 2 powi (E - 52)"
    by (simp add: v_def)
  then have "v / f64_ulp v = real_of_int m * 2 ^ d"
    unfolding ulp by simp
  also have "\<dots> = real_of_int (m * 2 ^ d)" by simp
  finally have q: "v / f64_ulp v = real_of_int (m * 2 ^ d)" .
  have "f64_round v = real_of_int (m * 2 ^ d) * f64_ulp v"
    unfolding f64_round_def q by (simp only: rhe_of_int)
  also have "\<dots> = v"
    using q f64_ulp_pos [of v] by (simp add: field_simps)
  finally show ?thesis by (simp add: v_def)
qed



lemma pow2_add: "(2::real) powi (a + b) = 2 powi a * 2 powi b"
  by (simp add: power_int_add)

lemma pow2_split53: "(2::real) powi (E + 1) = 2 ^ 53 * 2 powi (E - 52)"
  using pow2_add [of "E - 52" 53] by (simp add: ac_simps)

lemma pow2_split52: "(2::real) powi E = 2 ^ 52 * 2 powi (E - 52)"
  using pow2_add [of "E - 52" 52] by (simp add: ac_simps)

lemma f64_round_upper:
  assumes "0 < v"
  shows "f64_round v \<le> 2 powi (max (ilog2 v) (- 1022) + 1)"
proof -
  define E where "E = max (ilog2 v) (- 1022)"
  have ulp: "f64_ulp v = 2 powi (E - 52)"
    using assms by (simp add: f64_ulp_def E_def)
  have "v < 2 powi (ilog2 v + 1)" using ilog2_bounds [OF assms] by simp
  also have "\<dots> \<le> 2 powi (E + 1)" by (simp only: pow2_le_iff) (simp add: E_def)
  finally have "v \<le> 2 powi (E + 1)" by simp
  moreover have "(2::real) powi (E + 1) = 2 ^ 53 * 2 powi (E - 52)"
    by (rule pow2_split53)
  ultimately have "v / f64_ulp v \<le> real_of_int (2 ^ 53)"
    unfolding ulp by (simp add: field_simps)
  then have "round_half_even (v / f64_ulp v) \<le> 2 ^ 53" by (rule rhe_le_int)
  then have "real_of_int (round_half_even (v / f64_ulp v)) \<le> 2 ^ 53"
    by (simp only: of_int_le_iff [symmetric, where 'a = real] of_int_power of_int_numeral)
  then have "f64_round v \<le> 2 ^ 53 * 2 powi (E - 52)"
    unfolding f64_round_def ulp by (intro mult_right_mono) simp_all
  also have "\<dots> = 2 powi (E + 1)"
    by (rule pow2_split53 [symmetric])
  finally show ?thesis by (simp add: E_def)
qed

lemma f64_round_lower:
  assumes "0 < v" "- 1022 \<le> ilog2 v"
  shows "2 powi ilog2 v \<le> f64_round v"
proof -
  define E where "E = ilog2 v"
  have ulp: "f64_ulp v = 2 powi (E - 52)"
    using assms by (simp add: f64_ulp_def E_def max_def)
  have "2 powi E \<le> v" using ilog2_bounds [OF assms(1)] by (simp add: E_def)
  moreover have e: "(2::real) powi E = 2 ^ 52 * 2 powi (E - 52)"
    by (rule pow2_split52)
  ultimately have "real_of_int (2 ^ 52) \<le> v / f64_ulp v"
    unfolding ulp by (simp add: field_simps)
  then have "2 ^ 52 \<le> round_half_even (v / f64_ulp v)" by (rule rhe_ge_int)
  then have "2 ^ 52 \<le> real_of_int (round_half_even (v / f64_ulp v))"
    by (simp only: of_int_le_iff [symmetric, where 'a = real] of_int_power of_int_numeral)
  then have "2 ^ 52 * 2 powi (E - 52) \<le> f64_round v"
    unfolding f64_round_def ulp by (intro mult_right_mono) simp_all
  then show ?thesis using e by (simp add: E_def)
qed

lemma f64_round_mono:
  assumes "0 \<le> v" "v \<le> w"
  shows "f64_round v \<le> f64_round w"
proof (cases "v = 0")
  case True
  then show ?thesis using f64_round_nonneg [of w] assms by simp
next
  case False
  then have vpos: "0 < v" using assms by simp
  then have wpos: "0 < w" using assms by simp
  define Ev where "Ev = max (ilog2 v) (- 1022)"
  define Ew where "Ew = max (ilog2 w) (- 1022)"
  have le: "Ev \<le> Ew"
    using ilog2_mono [OF vpos assms(2)] by (simp add: Ev_def Ew_def)
  show ?thesis
  proof (cases "Ev = Ew")
    case True
    then have u: "f64_ulp v = f64_ulp w"
      using vpos wpos by (simp add: f64_ulp_def Ev_def Ew_def)
    have "v / f64_ulp w \<le> w / f64_ulp w"
      using assms(2) f64_ulp_pos [of w] by (simp add: divide_right_mono)
    then have "round_half_even (v / f64_ulp w) \<le> round_half_even (w / f64_ulp w)"
      by (rule rhe_mono)
    then show ?thesis
      unfolding f64_round_def u using f64_ulp_pos [of w] by (simp add: mult_right_mono)
  next
    case False
    with le have lt: "Ev + 1 \<le> Ew" by simp
    then have "- 1022 < Ew" by (simp add: Ev_def)
    then have Ew: "Ew = ilog2 w" "- 1022 \<le> ilog2 w" by (simp_all add: Ew_def max_def split: if_splits)
    have "f64_round v \<le> 2 powi (Ev + 1)"
      using f64_round_upper [OF vpos] by (simp add: Ev_def)
    also have "\<dots> \<le> 2 powi Ew" using lt by (simp only: pow2_le_iff)
    also have "\<dots> \<le> f64_round w"
      using f64_round_lower [OF wpos Ew(2)] by (simp add: Ew(1))
    finally show ?thesis .
  qed
qed

lemma f64_valueI:
  assumes "0 < m" "m < 2 ^ 53" "- 1074 \<le> e" "r = real_of_int m * 2 powi e"
  shows "f64_value r"
  using assms unfolding f64_value_def by blast

lemma f64_value_exact: "f64_value r \<Longrightarrow> f64_round r = r"
  unfolding f64_value_def using f64_round_exact by blast

lemma f64_value_pos: "f64_value r \<Longrightarrow> 0 < r"
  unfolding f64_value_def by auto

lemma f64_round_le:
  assumes "0 \<le> v" "v \<le> r" "f64_value r"
  shows "f64_round v \<le> r"
  using f64_round_mono [OF assms(1,2)] f64_value_exact [OF assms(3)] by simp

lemma f64_round_ge:
  assumes "r \<le> v" "f64_value r"
  shows "r \<le> f64_round v"
  using f64_round_mono [of r v] f64_value_pos [OF assms(2)] assms(1)
    f64_value_exact [OF assms(2)] by simp

lemma f64_value_of_int:
  assumes "0 < k" "k < 2 ^ 53"
  shows "f64_value (real_of_int k)"
  by (rule f64_valueI [OF assms, of 0]) simp_all

lemma f64_value_pow2_1023: "f64_value (2 ^ 1023)"
  by (rule f64_valueI [of 1 1023]) simp_all

lemma f64_value_pow2_1024: "f64_value (2 ^ 1024)"
  by (rule f64_valueI [of 1 1024]) simp_all

lemma f64_round_finite:
  assumes "0 \<le> v" "v \<le> 2 ^ 1023"
  shows "\<not> 2 ^ 1024 \<le> \<bar>f64_round v\<bar>"
proof -
  have "f64_round v \<le> 2 ^ 1023"
    by (rule f64_round_le [OF assms f64_value_pow2_1023])
  moreover have "0 \<le> f64_round v" by (rule f64_round_nonneg [OF assms(1)])
  ultimately show ?thesis by simp
qed

lemma f64_round_overflow:
  assumes "2 ^ 1024 \<le> v"
  shows "2 ^ 1024 \<le> \<bar>f64_round v\<bar>"
  using f64_round_ge [OF assms f64_value_pow2_1024] by simp

lemma quotient_le_numerator:
  assumes "0 \<le> a" "0 < b"
  shows "real_of_int a / real_of_int b \<le> real_of_int a"
proof -
  have "1 \<le> real_of_int b" using assms(2) by simp
  then have "real_of_int a / real_of_int b \<le> real_of_int a / 1"
    using assms(1) by (intro divide_left_mono) simp_all
  then show ?thesis by simp
qed

lemma int_truediv_ok:
  assumes "0 \<le> a" "0 < b" "a < 2 ^ 1023"
  shows "int_truediv a b = Inr (f64_round (real_of_int a / real_of_int b))"
proof -
  have nn: "0 \<le> real_of_int a / real_of_int b" using assms by simp
  have "real_of_int a < real_of_int (2 ^ 1023)"
    using assms(3) by (simp only: of_int_less_iff)
  then have "real_of_int a \<le> 2 ^ 1023" by simp
  then have "real_of_int a / real_of_int b \<le> 2 ^ 1023"
    using quotient_le_numerator [OF assms(1,2)] by linarith
  from f64_round_finite [OF nn this] show ?thesis
    using assms(2) by (simp add: int_truediv_def)
qed

lemma int_truediv_overflow:
  assumes "0 < b" "2 ^ 1024 * b \<le> a"
  shows "int_truediv a b = Inl OverflowError"
proof -
  have "real_of_int (2 ^ 1024 * b) \<le> real_of_int a"
    using assms(2) by (simp only: of_int_le_iff)
  then have "2 ^ 1024 \<le> real_of_int a / real_of_int b"
    using assms(1) by (simp add: pos_le_divide_eq)
  from f64_round_overflow [OF this] show ?thesis
    using assms(1) by (simp add: int_truediv_def)
qed

text \<open>Two roundings as the hardware makes them: one tenth, and one third.\<close>

lemma f64_round_tenth: "f64_round (1 / 10) = 3602879701896397 / 36028797018963968"
  by (simp add: f64_round_def f64_ulp_def ilog2.simps round_half_even_def)

lemma f64_round_third: "f64_round (1 / 3) = 6004799503160661 / 18014398509481984"
  by (simp add: f64_round_def f64_ulp_def ilog2.simps round_half_even_def)

section \<open>The layout solver: the columns and rows in floats\<close>

lemma frac_le_iff:
  assumes "0 < b"
  shows "(real_of_int a / real_of_int b \<le> real_of_int (k * k)) = (a \<le> k * k * b)"
proof -
  have "(real_of_int a / real_of_int b \<le> real_of_int (k * k))
        = (real_of_int a \<le> real_of_int (k * k) * real_of_int b)"
    using assms by (simp add: pos_divide_le_eq)
  also have "\<dots> = (real_of_int a \<le> real_of_int (k * k * b))"
    by simp
  also have "\<dots> = (a \<le> k * k * b)"
    by (rule of_int_le_iff)
  finally show ?thesis .
qed

lemma square_bound:
  fixes k :: int
  assumes "1 \<le> k" "k \<le> 11"
  shows "0 < k * k" and "k * k \<le> 121"
proof -
  show "0 < k * k" using assms by simp
  have "k * k \<le> 11 * 11" using assms by (intro mult_mono) simp_all
  then show "k * k \<le> 121" by simp
qed

lemma f64_value_above_square:
  fixes k :: int
  assumes "1 \<le> k" "k \<le> 11"
  shows "f64_value (real_of_int (k * k) + 1 / 2 ^ 41)"
proof (rule f64_valueI [of "k * k * 2 ^ 41 + 1" "- 41"])
  note sq = square_bound [OF assms]
  show "0 < k * k * 2 ^ 41 + 1" using sq(1) by simp
  show "k * k * 2 ^ 41 + 1 < 2 ^ 53" using sq(2) by simp
  show "- 1074 \<le> (- 41 :: int)" by simp
  show "real_of_int (k * k) + 1 / 2 ^ 41 = real_of_int (k * k * 2 ^ 41 + 1) * 2 powi (- 41)"
    by (simp add: power_int_minus field_simps)
qed

lemma f64_value_above_int:
  fixes k :: int
  assumes "1 \<le> k" "k \<le> 11"
  shows "f64_value (real_of_int k + 1 / 2 ^ 46)"
proof (rule f64_valueI [of "k * 2 ^ 46 + 1" "- 46"])
  show "0 < k * 2 ^ 46 + 1" using assms by simp
  show "k * 2 ^ 46 + 1 < 2 ^ 53" using assms by simp
  show "- 1074 \<le> (- 46 :: int)" by simp
  show "real_of_int k + 1 / 2 ^ 46 = real_of_int (k * 2 ^ 46 + 1) * 2 powi (- 46)"
    by (simp add: power_int_minus field_simps)
qed

lemma ceil_sqrt_round_le_iff:
  assumes a: "0 \<le> a" and b: "0 < b" "b \<le> 2 ^ 41" and k: "1 \<le> k" "k \<le> 11"
  shows "(\<lceil>f64_round (sqrt (f64_round (real_of_int a / real_of_int b)))\<rceil> \<le> k)
         = (a \<le> k * k * b)"
proof -
  define x where "x = real_of_int a / real_of_int b"
  define q where "q = f64_round x"
  define s where "s = f64_round (sqrt q)"
  have x0: "0 \<le> x" using a b by (simp add: x_def)
  have q0: "0 \<le> q" unfolding q_def by (rule f64_round_nonneg [OF x0])
  note sq = square_bound [OF k]
  have kpos: "0 < real_of_int k" using k by simp
  show ?thesis
  proof (cases "a \<le> k * k * b")
    case True
    then have "x \<le> real_of_int (k * k)"
      unfolding x_def by (simp only: frac_le_iff [OF b(1)])
    moreover have "f64_value (real_of_int (k * k))"
      using sq by (intro f64_value_of_int) simp_all
    ultimately have "q \<le> real_of_int (k * k)"
      unfolding q_def by (intro f64_round_le [OF x0])
    then have "sqrt q \<le> sqrt (real_of_int (k * k))" by (simp only: real_sqrt_le_iff)
    also have "\<dots> = real_of_int k" using k by simp
    finally have "sqrt q \<le> real_of_int k" .
    moreover have "f64_value (real_of_int k)"
      using k by (intro f64_value_of_int) simp_all
    moreover have "0 \<le> sqrt q" using q0 by simp
    ultimately have "s \<le> real_of_int k"
      unfolding s_def by (intro f64_round_le)
    then have "\<lceil>s\<rceil> \<le> k" by (rule ceiling_le)
    with True show ?thesis by (simp add: s_def q_def x_def)
  next
    case False
    then have "k * k * b + 1 \<le> a" by simp
    then have "real_of_int (k * k * b + 1) \<le> real_of_int a" by (simp only: of_int_le_iff)
    then have "real_of_int (k * k) * real_of_int b + 1 \<le> real_of_int a" by simp
    then have "(real_of_int (k * k) * real_of_int b + 1) / real_of_int b
                 \<le> real_of_int a / real_of_int b"
      using b(1) by (intro divide_right_mono) simp_all
    moreover have "(real_of_int (k * k) * real_of_int b + 1) / real_of_int b
                 = real_of_int (k * k) + 1 / real_of_int b"
      using b(1) by (simp add: add_divide_distrib)
    ultimately have "real_of_int (k * k) + 1 / real_of_int b \<le> x"
      unfolding x_def by simp
    moreover have "real_of_int b \<le> 2 ^ 41"
    proof -
      have "real_of_int b \<le> real_of_int (2 ^ 41)" using b(2) by (simp only: of_int_le_iff)
      then show ?thesis by simp
    qed
    then have "1 / 2 ^ 41 \<le> 1 / real_of_int b"
      using b(1) by (intro divide_left_mono) simp_all
    ultimately have rx: "real_of_int (k * k) + 1 / 2 ^ 41 \<le> x" by linarith
    have rq: "real_of_int (k * k) + 1 / 2 ^ 41 \<le> q"
      unfolding q_def by (rule f64_round_ge [OF rx f64_value_above_square [OF k]])
    define t where "t = real_of_int k + 1 / 2 ^ 46"
    have t0: "0 \<le> t" using k by (simp add: t_def)
    have "t * t = real_of_int (k * k) + real_of_int k * (2 / 2 ^ 46) + 1 / 2 ^ 92"
      by (simp add: t_def algebra_simps)
    moreover have "real_of_int k \<le> 11" using k by simp
    ultimately have "t * t \<le> real_of_int (k * k) + 1 / 2 ^ 41" by simp
    with rq have "t * t \<le> q" by linarith
    then have "sqrt (t * t) \<le> sqrt q" by (simp only: real_sqrt_le_iff)
    then have "t \<le> sqrt q" using t0 by simp
    then have "t \<le> s"
      unfolding s_def t_def by (rule f64_round_ge [OF _ f64_value_above_int [OF k]])
    then have "real_of_int k < s" by (simp add: t_def)
    then have "k < \<lceil>s\<rceil>" by (simp only: less_ceiling_iff)
    with False show ?thesis by (simp add: s_def q_def x_def)
  qed
qed

lemma cols_of_float:
  assumes "0 \<le> a" "0 < b" "b \<le> 2 ^ 41"
  shows "max 3 (min 12 \<lceil>f64_round (sqrt (f64_round (real_of_int a / real_of_int b)))\<rceil>)
         = cols_int a b"
proof -
  define c where "c = \<lceil>f64_round (sqrt (f64_round (real_of_int a / real_of_int b)))\<rceil>"
  have le: "\<And>k. 1 \<le> k \<Longrightarrow> k \<le> 11 \<Longrightarrow> (c \<le> k) = (a \<le> k * k * b)"
    unfolding c_def by (rule ceil_sqrt_round_le_iff [OF assms])
  have h: "(c \<le> 3) = (a \<le> 3 * 3 * b)" "(c \<le> 4) = (a \<le> 4 * 4 * b)"
    "(c \<le> 5) = (a \<le> 5 * 5 * b)" "(c \<le> 6) = (a \<le> 6 * 6 * b)"
    "(c \<le> 7) = (a \<le> 7 * 7 * b)" "(c \<le> 8) = (a \<le> 8 * 8 * b)"
    "(c \<le> 9) = (a \<le> 9 * 9 * b)" "(c \<le> 10) = (a \<le> 10 * 10 * b)"
    "(c \<le> 11) = (a \<le> 11 * 11 * b)"
    by (rule le, simp, simp)+
  have "max 3 (min 12 c) = cols_int a b"
    unfolding cols_int_def cols_search.simps h [symmetric]
    by (simp add: max_def min_def)
  then show ?thesis by (simp add: c_def)
qed

lemma cols_int_bounds: "3 \<le> cols_int a b \<and> cols_int a b \<le> 12"
  by (simp add: cols_int_def)

lemma f64_value_sixteenth: "f64_value (1 / 16)"
  by (rule f64_valueI [of 1 "- 4"]) (simp_all add: power_int_minus)

lemma f64_value_plus_sixteenth:
  fixes j :: int
  assumes "0 \<le> j" "j < 2 ^ 48"
  shows "f64_value (real_of_int j + 1 / 16)"
proof (rule f64_valueI [of "j * 16 + 1" "- 4"])
  show "0 < j * 16 + 1" using assms by simp
  show "j * 16 + 1 < 2 ^ 53" using assms by simp
  show "- 1074 \<le> (- 4 :: int)" by simp
  show "real_of_int j + 1 / 16 = real_of_int (j * 16 + 1) * 2 powi (- 4)"
    by (simp add: power_int_minus field_simps)
qed

text \<open>The row count is at least one, and exact for fewer than \<open>2 ^ 48\<close> images.\<close>

lemma rows_float_pos:
  assumes "1 \<le> n" "0 < c" "c \<le> 12"
  shows "1 \<le> \<lceil>f64_round (real_of_int n / real_of_int c)\<rceil>"
proof -
  have "real_of_int c \<le> 16" using assms(3) by simp
  then have "1 / 16 \<le> 1 / real_of_int c"
    using assms(2) by (intro divide_left_mono) simp_all
  also have "\<dots> \<le> real_of_int n / real_of_int c"
    using assms(1,2) by (intro divide_right_mono) simp_all
  finally have "1 / 16 \<le> real_of_int n / real_of_int c" .
  then have "1 / 16 \<le> f64_round (real_of_int n / real_of_int c)"
    by (rule f64_round_ge [OF _ f64_value_sixteenth])
  then have "real_of_int 0 < f64_round (real_of_int n / real_of_int c)" by simp
  then have "0 < \<lceil>f64_round (real_of_int n / real_of_int c)\<rceil>"
    by (simp only: less_ceiling_iff)
  then show ?thesis by simp
qed

lemma rows_float_exact:
  assumes n: "0 \<le> n" "n < 2 ^ 48" and c: "0 < c" "c \<le> 12"
  shows "\<lceil>f64_round (real_of_int n / real_of_int c)\<rceil> = \<lceil>real_of_int n / real_of_int c\<rceil>"
proof (cases "n = 0")
  case True
  then show ?thesis by simp
next
  case False
  with n have npos: "1 \<le> n" by simp
  define x where "x = real_of_int n / real_of_int c"
  define K where "K = \<lceil>x\<rceil>"
  have x0: "0 \<le> x" using n c by (simp add: x_def)
  have xn: "x \<le> real_of_int n"
    unfolding x_def by (rule quotient_le_numerator [OF n(1) c(1)])
  have "0 < x" using npos c by (simp add: x_def)
  then have "real_of_int 0 < x" by simp
  then have "0 < K" unfolding K_def by (simp only: less_ceiling_iff)
  then have K1: "1 \<le> K" by simp
  have "K \<le> n" unfolding K_def using xn by (rule ceiling_le)
  then have Kb: "K < 2 ^ 48" using n(2) by simp
  have xK: "x \<le> real_of_int K" unfolding K_def by (rule le_of_int_ceiling)
  have upper: "f64_round x \<le> real_of_int K"
  proof (rule f64_round_le [OF x0 xK])
    show "f64_value (real_of_int K)"
      using K1 Kb by (intro f64_value_of_int) simp_all
  qed
  have "real_of_int (K - 1) < x"
    unfolding K_def using ceiling_correct [of x] by simp
  then have "real_of_int ((K - 1) * c) < real_of_int n"
    using c(1) by (simp add: x_def pos_less_divide_eq)
  then have "(K - 1) * c < n" by (simp only: of_int_less_iff)
  then have "(K - 1) * c + 1 \<le> n" by simp
  then have "real_of_int ((K - 1) * c + 1) \<le> real_of_int n" by (simp only: of_int_le_iff)
  then have "(real_of_int (K - 1) * real_of_int c + 1) / real_of_int c \<le> x"
    unfolding x_def using c(1) by (intro divide_right_mono) simp_all
  moreover have "(real_of_int (K - 1) * real_of_int c + 1) / real_of_int c
                   = real_of_int (K - 1) + 1 / real_of_int c"
    using c(1) by (simp add: add_divide_distrib)
  moreover have "1 / 16 \<le> 1 / real_of_int c"
  proof -
    have "real_of_int c \<le> 16" using c(2) by simp
    then show ?thesis using c(1) by (intro divide_left_mono) simp_all
  qed
  ultimately have "real_of_int (K - 1) + 1 / 16 \<le> x" by linarith
  moreover have "f64_value (real_of_int (K - 1) + 1 / 16)"
    using K1 Kb by (intro f64_value_plus_sixteenth) simp_all
  ultimately have "real_of_int (K - 1) + 1 / 16 \<le> f64_round x"
    by (rule f64_round_ge)
  then have lower: "real_of_int (K - 1) < f64_round x" by simp
  have "\<lceil>f64_round x\<rceil> = K"
    using upper lower by (intro ceiling_unique) simp_all
  then show ?thesis by (simp add: x_def K_def)
qed

lemma ceil_sqrt_le_iff:
  assumes "0 \<le> k"
  shows "(\<lceil>sqrt q\<rceil> \<le> k) = (q \<le> real_of_int (k * k))"
proof -
  have "(\<lceil>sqrt q\<rceil> \<le> k) = (sqrt q \<le> real_of_int k)"
    by (rule ceiling_le_iff)
  also have "\<dots> = (sqrt q \<le> sqrt (real_of_int (k * k)))"
    using assms by (simp add: real_sqrt_mult)
  also have "\<dots> = (q \<le> real_of_int (k * k))"
    by (rule real_sqrt_le_iff)
  finally show ?thesis .
qed

lemma ceil_sqrt_frac_le:
  assumes "0 < b" "0 \<le> k"
  shows "(\<lceil>sqrt (real_of_int a / real_of_int b)\<rceil> \<le> k) = (a \<le> k * k * b)"
  using ceil_sqrt_le_iff [OF assms(2)] frac_le_iff [OF assms(1)] by simp

lemma cols_of_real:
  assumes "0 < b"
  shows "max 3 (min 12 \<lceil>sqrt (real_of_int a / real_of_int b)\<rceil>) = cols_int a b"
proof -
  define c where "c = \<lceil>sqrt (real_of_int a / real_of_int b)\<rceil>"
  have le: "\<And>k. 0 \<le> k \<Longrightarrow> (c \<le> k) = (a \<le> k * k * b)"
    unfolding c_def using ceil_sqrt_frac_le [OF assms] by blast
  have h: "(c \<le> 3) = (a \<le> 3 * 3 * b)" "(c \<le> 4) = (a \<le> 4 * 4 * b)"
    "(c \<le> 5) = (a \<le> 5 * 5 * b)" "(c \<le> 6) = (a \<le> 6 * 6 * b)"
    "(c \<le> 7) = (a \<le> 7 * 7 * b)" "(c \<le> 8) = (a \<le> 8 * 8 * b)"
    "(c \<le> 9) = (a \<le> 9 * 9 * b)" "(c \<le> 10) = (a \<le> 10 * 10 * b)"
    "(c \<le> 11) = (a \<le> 11 * 11 * b)"
    by (rule le, simp)+
  have "max 3 (min 12 c) = cols_int a b"
    unfolding cols_int_def cols_search.simps h [symmetric]
    by (simp add: max_def min_def)
  then show ?thesis by (simp add: c_def)
qed

lemma clamp_max_min: "max 3 (min 12 v) = clamp v 3 12"
  by (simp add: clamp_def max_def min_def)

lemma mult_floor_div_le:
  fixes a c :: int
  assumes "0 < c"
  shows "c * (a div c) \<le> a"
proof -
  have "c * (a div c) + a mod c = a" by (rule mult_div_mod_eq)
  moreover have "0 \<le> a mod c" using assms by (rule pos_mod_sign)
  ultimately show ?thesis by linarith
qed

lemma math_sqrt_nonneg:
  assumes "0 \<le> q"
  shows "math_sqrt q = Inr (f64_round (sqrt q))"
  using assms by (simp add: math_sqrt_def)

lemma area_bounds:
  fixes n w :: int
  assumes "1 \<le> n" "0 < w"
  shows "0 \<le> n * w" and "n \<le> n * w"
proof -
  show "0 \<le> n * w" using assms by simp
  have "n * 1 \<le> n * w" using assms by (intro mult_left_mono) simp_all
  then show "n \<le> n * w" by simp
qed

lemma solve_layout_steps:
  assumes n: "1 \<le> n" and w: "0 < base_w" and h: "0 < base_h" and fin: "n * base_w < 2 ^ 1023"
  defines "s \<equiv> f64_round (sqrt (f64_round (real_of_int (n * base_w) / real_of_int base_h)))"
  defines "cs \<equiv> max 3 (min 12 \<lceil>s\<rceil>)"
  defines "rs \<equiv> \<lceil>f64_round (real_of_int n / real_of_int cs)\<rceil>"
  shows "solve_layout n base_w base_h =
           Inr \<lparr>cols = cs, rows = rs, cell_w = base_w div cs, cell_h = base_h div rs\<rparr>"
    and "3 \<le> cs" and "cs \<le> 12" and "1 \<le> rs"
proof -
  note ab = area_bounds [OF n w]
  have q: "int_truediv (n * base_w) base_h
             = Inr (f64_round (real_of_int (n * base_w) / real_of_int base_h))"
    by (rule int_truediv_ok [OF ab(1) h fin])
  have "0 \<le> real_of_int (n * base_w)" "0 < real_of_int base_h"
    using ab(1) h by (simp_all only: of_int_0_le_iff of_int_0_less_iff)
  then have "0 \<le> real_of_int (n * base_w) / real_of_int base_h"
    by (rule divide_nonneg_pos)
  then have q0: "0 \<le> f64_round (real_of_int (n * base_w) / real_of_int base_h)"
    by (rule f64_round_nonneg)
  have sq: "math_sqrt (f64_round (real_of_int (n * base_w) / real_of_int base_h)) = Inr s"
    unfolding s_def by (rule math_sqrt_nonneg [OF q0])
  show c3: "3 \<le> cs" and c12: "cs \<le> 12" by (simp_all add: cs_def)
  then have cpos: "0 < cs" by simp
  have nfin: "n < 2 ^ 1023" using ab(2) fin by linarith
  have n0: "0 \<le> n" using n by simp
  have v: "int_truediv n cs = Inr (f64_round (real_of_int n / real_of_int cs))"
    by (rule int_truediv_ok [OF n0 cpos nfin])
  show r1: "1 \<le> rs" unfolding rs_def by (rule rows_float_pos [OF n cpos c12])
  then have "rs \<noteq> 0" by simp
  then show "solve_layout n base_w base_h =
           Inr \<lparr>cols = cs, rows = rs, cell_w = base_w div cs, cell_h = base_h div rs\<rparr>"
    by (simp add: solve_layout_def q sq Let_def cs_def [symmetric] v rs_def [symmetric]
        del: of_int_mult)
qed

lemma solve_layout_eval:
  assumes n: "1 \<le> n" "n < 2 ^ 48" and w: "0 < base_w"
    and h: "0 < base_h" "base_h \<le> 2 ^ 41" and fin: "n * base_w < 2 ^ 1023"
  shows "solve_layout n base_w base_h =
     Inr \<lparr>cols = cols_int (n * base_w) base_h,
          rows = \<lceil>real_of_int n / real_of_int (cols_int (n * base_w) base_h)\<rceil>,
          cell_w = base_w div cols_int (n * base_w) base_h,
          cell_h = base_h div \<lceil>real_of_int n / real_of_int (cols_int (n * base_w) base_h)\<rceil>\<rparr>"
proof -
  note ab = area_bounds [OF n(1) w]
  have c: "max 3 (min 12 \<lceil>f64_round (sqrt (f64_round
              (real_of_int (n * base_w) / real_of_int base_h)))\<rceil>) = cols_int (n * base_w) base_h"
    by (rule cols_of_float [OF ab(1) h])
  have cb: "0 < cols_int (n * base_w) base_h" "cols_int (n * base_w) base_h \<le> 12"
    using cols_int_bounds [of "n * base_w" base_h] by simp_all
  have n0: "0 \<le> n" using n(1) by simp
  have r: "\<lceil>f64_round (real_of_int n / real_of_int (cols_int (n * base_w) base_h))\<rceil>
           = \<lceil>real_of_int n / real_of_int (cols_int (n * base_w) base_h)\<rceil>"
    by (rule rows_float_exact [OF n0 n(2) cb])
  show ?thesis
    using solve_layout_steps(1) [OF n(1) w h(1) fin] unfolding c r .
qed

section \<open>The square root, computed\<close>

lemma isqrt_bounds:
  assumes "0 \<le> n"
  shows "0 \<le> isqrt n \<and> isqrt n * isqrt n \<le> n \<and> n < (isqrt n + 1) * (isqrt n + 1)"
  using assms
proof (induction n rule: isqrt.induct)
  case (1 n)
  show ?case
  proof (cases "n < 4")
    case True
    then have "n = 0 \<or> n = 1 \<or> n = 2 \<or> n = 3" using "1.prems" by auto
    then show ?thesis by (auto simp: isqrt.simps [of n])
  next
    case False
    define m where "m = n div 4"
    define r where "r = 2 * isqrt m"
    have m0: "0 \<le> m" using "1.prems" by (simp add: m_def)
    have ih: "0 \<le> isqrt m \<and> isqrt m * isqrt m \<le> m \<and> m < (isqrt m + 1) * (isqrt m + 1)"
      using "1.IH" False m0 by (simp add: m_def)
    have e: "isqrt n = (if (r + 1) * (r + 1) \<le> n then r + 1 else r)"
      using False by (subst isqrt.simps) (simp add: Let_def r_def m_def)
    have m4: "4 * m \<le> n" "n < 4 * m + 4" by (simp_all add: m_def)
    have r0: "0 \<le> r" using ih by (simp add: r_def)
    have lo: "r * r \<le> n"
    proof -
      have "r * r = 4 * (isqrt m * isqrt m)" by (simp add: r_def)
      also have "\<dots> \<le> 4 * m" using ih by simp
      finally show ?thesis using m4 by simp
    qed
    have hi: "n < (r + 2) * (r + 2)"
    proof -
      have "m + 1 \<le> (isqrt m + 1) * (isqrt m + 1)" using ih by simp
      then have "4 * (m + 1) \<le> 4 * ((isqrt m + 1) * (isqrt m + 1))" by simp
      also have "\<dots> = (r + 2) * (r + 2)" by (simp add: r_def algebra_simps)
      finally show ?thesis using m4 by simp
    qed
    show ?thesis
      unfolding e using lo hi r0 by (auto simp: algebra_simps)
  qed
qed

lemma floor_sqrt_isqrt:
  assumes "0 \<le> v"
  shows "\<lfloor>sqrt v\<rfloor> = isqrt \<lfloor>v\<rfloor>"
proof (rule floor_unique)
  define f where "f = isqrt \<lfloor>v\<rfloor>"
  have fl: "0 \<le> \<lfloor>v\<rfloor>" using assms by simp
  note b = isqrt_bounds [OF fl, folded f_def]
  have f0: "0 \<le> real_of_int f" using b by simp
  have "f * f \<le> \<lfloor>v\<rfloor>" using b by simp
  then have "real_of_int (f * f) \<le> v" by (simp only: le_floor_iff)
  then have "real_of_int f * real_of_int f \<le> v" by simp
  then have "sqrt (real_of_int f * real_of_int f) \<le> sqrt v" by (simp only: real_sqrt_le_iff)
  then show "real_of_int (isqrt \<lfloor>v\<rfloor>) \<le> sqrt v"
    using f0 by (simp add: f_def)
  have "\<lfloor>v\<rfloor> < (f + 1) * (f + 1)" using b by simp
  then have "v < real_of_int ((f + 1) * (f + 1))" by (simp only: floor_less_iff)
  then have "v < (real_of_int f + 1) * (real_of_int f + 1)" by (simp add: algebra_simps)
  then have "sqrt v < sqrt ((real_of_int f + 1) * (real_of_int f + 1))"
    by (simp only: real_sqrt_less_iff)
  then show "sqrt v < real_of_int (isqrt \<lfloor>v\<rfloor>) + 1"
    using f0 by (simp add: f_def)
qed

lemma sqrt_less_iff_square:
  assumes "0 \<le> t"
  shows "(sqrt v < t) = (v < t * t)"
proof -
  have "(sqrt v < t) = (sqrt v < sqrt (t * t))" using assms by simp
  also have "\<dots> = (v < t * t)" by (rule real_sqrt_less_iff)
  finally show ?thesis .
qed

lemma sqrt_greater_iff_square:
  assumes "0 \<le> t"
  shows "(t < sqrt v) = (t * t < v)"
proof -
  have "(t < sqrt v) = (sqrt (t * t) < sqrt v)" using assms by simp
  also have "\<dots> = (t * t < v)" by (rule real_sqrt_less_iff)
  finally show ?thesis .
qed

lemma rhe_sqrt_correct:
  assumes "0 \<le> v"
  shows "round_half_even (sqrt v) = rhe_sqrt v"
proof -
  define f where "f = isqrt \<lfloor>v\<rfloor>"
  define t where "t = real_of_int f + 1 / 2"
  have fl: "\<lfloor>sqrt v\<rfloor> = f" unfolding f_def by (rule floor_sqrt_isqrt [OF assms])
  have "0 \<le> \<lfloor>v\<rfloor>" using assms by simp
  then have f0: "0 \<le> f" unfolding f_def using isqrt_bounds by blast
  then have t0: "0 \<le> t" by (simp add: t_def)
  have tt: "t * t = real_of_int (f * f + f) + 1 / 4"
    by (simp add: t_def algebra_simps)
  have "(sqrt v - real_of_int f < 1 / 2) = (sqrt v < t)"
    unfolding t_def by linarith
  also have "\<dots> = (v < t * t)" by (rule sqrt_less_iff_square [OF t0])
  finally have lt: "(sqrt v - real_of_int f < 1 / 2) = (v < real_of_int (f * f + f) + 1 / 4)"
    unfolding tt .
  have "(1 / 2 < sqrt v - real_of_int f) = (t < sqrt v)"
    unfolding t_def by linarith
  also have "\<dots> = (t * t < v)" by (rule sqrt_greater_iff_square [OF t0])
  finally have gt: "(1 / 2 < sqrt v - real_of_int f) = (real_of_int (f * f + f) + 1 / 4 < v)"
    unfolding tt .
  show ?thesis
    unfolding round_half_even_def rhe_sqrt_def fl f_def [symmetric] Let_def lt gt
    by (rule refl)
qed

lemma ilog2_0: "ilog2 0 = 0"
  by (simp add: ilog2.simps)

lemma pow2_double: "(2::real) powi (2 * h) = 2 powi h * 2 powi h"
  using pow2_add [of h h] by simp

lemma ilog2_sqrt:
  assumes "0 < v"
  shows "ilog2 (sqrt v) = ilog2 v div 2"
proof (rule ilog2_unique)
  define e where "e = ilog2 v"
  define h where "h = e div 2"
  note b = ilog2_bounds [OF assms, folded e_def]
  show "0 < sqrt v" using assms by simp
  have "2 * h \<le> e" by (simp add: h_def)
  then have "(2::real) powi (2 * h) \<le> 2 powi e" by (simp only: pow2_le_iff)
  moreover have "(2::real) powi (2 * h) = 2 powi h * 2 powi h" by (rule pow2_double)
  ultimately have "2 powi h * 2 powi h \<le> v" using b by linarith
  then have "sqrt (2 powi h * 2 powi h) \<le> sqrt v" by (simp only: real_sqrt_le_iff)
  then show "2 powi (ilog2 v div 2) \<le> sqrt v"
    by (simp add: h_def e_def)
  have "e + 1 \<le> 2 * (h + 1)" by (simp add: h_def)
  then have "(2::real) powi (e + 1) \<le> 2 powi (2 * (h + 1))" by (simp only: pow2_le_iff)
  moreover have "(2::real) powi (2 * (h + 1)) = 2 powi (h + 1) * 2 powi (h + 1)"
    by (rule pow2_double)
  ultimately have "v < 2 powi (h + 1) * 2 powi (h + 1)" using b by linarith
  then have "sqrt v < sqrt (2 powi (h + 1) * 2 powi (h + 1))" by (simp only: real_sqrt_less_iff)
  then show "sqrt v < 2 powi (ilog2 v div 2 + 1)"
    by (simp add: h_def e_def)
qed

lemma math_sqrt_code [code]:
  "math_sqrt v =
     (if v < 0 then Inl ValueError
      else let u = 2 powi (max (ilog2 v div 2) (- 1022) - 52)
           in Inr (real_of_int (rhe_sqrt (v / (u * u))) * u))"
proof (cases "v < 0")
  case True
  then show ?thesis by (simp add: math_sqrt_def)
next
  case False
  then have v0: "0 \<le> v" by simp
  define u :: real where "u = 2 powi (max (ilog2 v div 2) (- 1022) - 52)"
  have upos: "0 < u" by (simp add: u_def)
  have ulp: "f64_ulp (sqrt v) = u"
  proof (cases "v = 0")
    case True
    then show ?thesis by (simp add: f64_ulp_def u_def ilog2_0)
  next
    case False
    with v0 have "0 < v" by simp
    then show ?thesis by (simp add: f64_ulp_def u_def ilog2_sqrt)
  qed
  have "sqrt v / u = sqrt v / sqrt (u * u)" using upos by simp
  also have "\<dots> = sqrt (v / (u * u))" by (simp only: real_sqrt_divide)
  finally have q: "sqrt v / u = sqrt (v / (u * u))" .
  have "0 \<le> v / (u * u)" using v0 upos by simp
  then have r: "round_half_even (sqrt (v / (u * u))) = rhe_sqrt (v / (u * u))"
    by (rule rhe_sqrt_correct)
  have "f64_round (sqrt v) = real_of_int (rhe_sqrt (v / (u * u))) * u"
    unfolding f64_round_def ulp q r by (rule refl)
  then show ?thesis
    using False by (simp add: math_sqrt_def Let_def u_def)
qed

section \<open>The placement loop and the builder\<close>

lemma row_of_index:
  assumes "0 < c" "idx < n"
  shows "idx div c < \<lceil>real_of_int n / real_of_int c\<rceil>"
proof -
  have "real_of_int (idx div c) \<le> real_of_int idx / real_of_int c"
    by (rule real_of_int_div4)
  also have "\<dots> < real_of_int n / real_of_int c"
    using assms by (simp add: divide_strict_right_mono)
  also have "\<dots> \<le> real_of_int \<lceil>real_of_int n / real_of_int c\<rceil>"
    by (rule le_of_int_ceiling)
  finally show ?thesis by (simp only: of_int_less_iff)
qed

lemma int_truediv_InrD:
  assumes "int_truediv a b = Inr v"
  shows "v = f64_round (real_of_int a / real_of_int b)" and "b \<noteq> 0"
  using assms by (auto simp: int_truediv_def split: if_splits)

lemma solve_layout_InrD:
  assumes "solve_layout n base_w base_h = Inr L"
  shows "3 \<le> cols L" and "cols L \<le> 12"
    and "rows L = \<lceil>f64_round (real_of_int n / real_of_int (cols L))\<rceil>"
    and "rows L \<noteq> 0"
    and "cell_w L = base_w div cols L" and "cell_h L = base_h div rows L"
proof -
  from assms obtain q s v where
    q: "int_truediv (n * base_w) base_h = Inr q" and s: "math_sqrt q = Inr s"
    and v: "int_truediv n (max 3 (min 12 \<lceil>s\<rceil>)) = Inr v"
    and r: "\<lceil>v\<rceil> \<noteq> 0"
    and L: "L = \<lparr>cols = max 3 (min 12 \<lceil>s\<rceil>), rows = \<lceil>v\<rceil>,
                 cell_w = base_w div max 3 (min 12 \<lceil>s\<rceil>), cell_h = base_h div \<lceil>v\<rceil>\<rparr>"
    unfolding solve_layout_def Let_def
    by (auto split: sum.splits if_splits)
  show "3 \<le> cols L" "cols L \<le> 12" by (simp_all add: L)
  show "rows L = \<lceil>f64_round (real_of_int n / real_of_int (cols L))\<rceil>"
    using int_truediv_InrD(1) [OF v] by (simp add: L)
  show "rows L \<noteq> 0" using r by (simp add: L)
  show "cell_w L = base_w div cols L" "cell_h L = base_h div rows L" by (simp_all add: L)
qed

lemma rows_of_layout:
  assumes "solve_layout n base_w base_h = Inr L" "0 \<le> n" "n < 2 ^ 48"
  shows "rows L = \<lceil>real_of_int n / real_of_int (cols L)\<rceil>"
proof -
  note D = solve_layout_InrD [OF assms(1)]
  have c: "0 < cols L" using D(1) by simp
  show ?thesis
    unfolding D(3) by (rule rows_float_exact [OF assms(2,3) c D(2)])
qed

lemma paste_loop_eq_paste_all:
  assumes "\<forall>k. 0 \<le> k \<and> k < int (length ims) \<longrightarrow> (idx + k) div cols L < rows L"
  shows "paste_loop L idx ims acc = paste_all L idx ims acc"
  using assms
proof (induction ims arbitrary: idx acc)
  case Nil
  show ?case by simp
next
  case (Cons im ims)
  have here: "idx div cols L < rows L"
    using Cons.prems [rule_format, of 0] by simp
  have rest: "\<forall>k. 0 \<le> k \<and> k < int (length ims) \<longrightarrow> (idx + 1 + k) div cols L < rows L"
  proof (intro allI impI)
    fix k assume "0 \<le> k \<and> k < int (length ims)"
    then have "0 \<le> k + 1 \<and> k + 1 < int (length (im # ims))" by simp
    then have "(idx + (k + 1)) div cols L < rows L"
      using Cons.prems by blast
    then show "(idx + 1 + k) div cols L < rows L" by (simp add: ac_simps)
  qed
  show ?case
    using here Cons.IH [OF rest] by (simp split: sum.splits)
qed

lemma paste_all_result:
  assumes "paste_all L idx ims acc = Inr ps"
  shows "\<exists>qs. ps = acc @ qs \<and> length qs = length ims
           \<and> (\<forall>k<length ims. place_image L (idx + int k) (ims ! k) = Inr (qs ! k))"
  using assms
proof (induction ims arbitrary: idx acc)
  case Nil
  then show ?case by simp
next
  case (Cons im ims)
  from Cons.prems obtain p where p: "place_image L idx im = Inr p"
    and rec: "paste_all L (idx + 1) ims (acc @ [p]) = Inr ps"
    by (auto split: sum.splits)
  from Cons.IH [OF rec] obtain qs where qs: "ps = (acc @ [p]) @ qs" "length qs = length ims"
    "\<forall>k<length ims. place_image L (idx + 1 + int k) (ims ! k) = Inr (qs ! k)"
    by blast
  have "\<forall>k<length (im # ims). place_image L (idx + int k) ((im # ims) ! k) = Inr ((p # qs) ! k)"
  proof (intro allI impI)
    fix k assume k: "k < length (im # ims)"
    show "place_image L (idx + int k) ((im # ims) ! k) = Inr ((p # qs) ! k)"
    proof (cases k)
      case 0
      then show ?thesis using p by simp
    next
      case (Suc j)
      then have "j < length ims" using k by simp
      then have "place_image L (idx + 1 + int j) (ims ! j) = Inr (qs ! j)"
        using qs(3) by blast
      then show ?thesis using Suc by (simp add: ac_simps)
    qed
  qed
  then show ?case using qs(1,2) by (intro exI [of _ "p # qs"]) simp
qed

lemma place_image_fields:
  assumes "place_image L idx im = Inr p"
  shows "resized_from p = im"
    and "at_x p = (idx mod cols L) * cell_w L + (cell_w L - new_w p) div 2"
    and "at_y p = (idx div cols L) * cell_h L + (cell_h L - new_h p) div 2"
    and "scaled_size L im = Inr (new_w p, new_h p)"
    and "1 \<le> new_w p" and "1 \<le> new_h p"
  using assms unfolding place_image_def Let_def
  by (auto split: sum.splits prod.splits if_splits)

lemma place_image_ok:
  assumes "scaled_size L im = Inr (nw, nh)" "1 \<le> nw" "1 \<le> nh"
  shows "\<exists>p. place_image L idx im = Inr p"
  using assms unfolding place_image_def Let_def by simp

lemma paste_all_ok:
  assumes "\<forall>im\<in>set ims. \<exists>nw nh. scaled_size L im = Inr (nw, nh) \<and> 1 \<le> nw \<and> 1 \<le> nh"
  shows "\<exists>ps. paste_all L idx ims acc = Inr ps"
  using assms
proof (induction ims arbitrary: idx acc)
  case Nil
  show ?case by simp
next
  case (Cons im ims)
  from Cons.prems obtain nw nh where "scaled_size L im = Inr (nw, nh)" "1 \<le> nw" "1 \<le> nh"
    by auto
  from place_image_ok [OF this] obtain p where "place_image L idx im = Inr p"
    by blast
  moreover from Cons.prems
  have "\<forall>im\<in>set ims. \<exists>nw nh. scaled_size L im = Inr (nw, nh) \<and> 1 \<le> nw \<and> 1 \<le> nh"
    by simp
  from Cons.IH [OF this] obtain ps where "paste_all L (idx + 1) ims (acc @ [p]) = Inr ps"
    by blast
  ultimately show ?case by simp
qed

lemma no_break_of_layout:
  assumes "solve_layout (int (length imgs)) base_w base_h = Inr L"
    and "int (length imgs) < 2 ^ 48"
  shows "\<forall>idx. 0 \<le> idx \<and> idx < int (length imgs) \<longrightarrow> idx div cols L < rows L"
proof (intro allI impI)
  fix idx assume "0 \<le> idx \<and> idx < int (length imgs)"
  then have lt: "idx < int (length imgs)" by simp
  have c: "0 < cols L" using solve_layout_InrD(1) [OF assms(1)] by simp
  have n0: "0 \<le> int (length imgs)" by simp
  show "idx div cols L < rows L"
    unfolding rows_of_layout [OF assms(1) n0 assms(2)] by (rule row_of_index [OF c lt])
qed

lemma paste_loop_of_layout:
  assumes "solve_layout (int (length imgs)) base_w base_h = Inr L"
    and "int (length imgs) < 2 ^ 48"
  shows "paste_loop L 0 imgs [] = paste_all L 0 imgs []"
proof (rule paste_loop_eq_paste_all)
  show "\<forall>k. 0 \<le> k \<and> k < int (length imgs) \<longrightarrow> (0 + k) div cols L < rows L"
    using no_break_of_layout [OF assms] by simp
qed



lemma compose_collage_cases:
  "(\<exists>e evs. compose_collage E imgs rt base_w base_h ts = (Inl e, evs) \<and> saved_files evs = [])
   \<or> (\<exists>ps evs. compose_collage E imgs rt base_w base_h ts
          = (Inr (Some (''data:image/png;base64,''
                         @ b64encode E (png_encode E (Canvas base_w base_h (0, 0, 0) ps))),
                  Some (Join rt (''grid-cover-'' @ ts @ ''.png''))), evs)
        \<and> saved_files evs = [(Join rt (''grid-cover-'' @ ts @ ''.png''),
                              GaussianBlur 9 (Canvas base_w base_h (0, 0, 0) ps))])"
  by (simp add: compose_collage_def Let_def split: sum.splits)

lemma build_early_exit:
  assumes "max_cells \<le> 0 \<or> collect_thumb_srcs tiles max_cells [] = []
           \<or> load_images E rt (collect_thumb_srcs tiles max_cells []) = []"
  shows "build_collages_for_33T E tiles rt max_cells base_w base_h ts =
     (Inr (None, None),
      [Print (if max_cells \<le> 0 then MsgCollageDisabled
              else if collect_thumb_srcs tiles max_cells [] = [] then MsgNoThumbnails
              else MsgLoadFailed)])"
  using assms by (auto simp: build_collages_for_33T_def Let_def)

lemma build_composes:
  assumes "0 < max_cells" "load_images E rt (collect_thumb_srcs tiles max_cells []) \<noteq> []"
  shows "build_collages_for_33T E tiles rt max_cells base_w base_h ts =
     compose_collage E (load_images E rt (collect_thumb_srcs tiles max_cells [])) rt base_w base_h ts"
  using assms by (auto simp: build_collages_for_33T_def Let_def)

section \<open>Concrete runs\<close>

lemma a_png_missing: "download_image_to_pil one_file_env ''a.png'' (Path ''.'') = None"
  by (simp add: download_image_to_pil_def one_file_env_def lower_def lower_char_def)

lemma b_png_loads: "download_image_to_pil one_file_env ''b.png'' (Path ''.'') = Some b_png"
  by (simp add: download_image_to_pil_def one_file_env_def lower_def lower_char_def)

lemma thin_png_loads: "download_image_to_pil two_file_env ''thin.png'' (Path ''.'') = Some thin_png"
  by (simp add: download_image_to_pil_def two_file_env_def one_file_env_def lower_def lower_char_def)

lemma place_b_png:
  "place_image \<lparr>cols = 3, rows = 1, cell_w = 400, cell_h = 630\<rparr> 0 b_png
     = Inr \<lparr>resized_from = b_png, new_w = 400, new_h = 200, at_x = 0, at_y = 215\<rparr>"
  by (simp add: place_image_def scaled_size_def int_truediv_def int_to_float_def
      float_truediv_def float_mul_def py_int_def f64_round_def f64_ulp_def ilog2.simps
      round_half_even_def b_png_def thin_png_def)

lemma place_b_png_1:
  "place_image \<lparr>cols = 3, rows = 1, cell_w = 400, cell_h = 630\<rparr> 1 b_png
     = Inr \<lparr>resized_from = b_png, new_w = 400, new_h = 200, at_x = 400, at_y = 215\<rparr>"
  by (simp add: place_image_def scaled_size_def int_truediv_def int_to_float_def
      float_truediv_def float_mul_def py_int_def f64_round_def f64_ulp_def ilog2.simps
      round_half_even_def b_png_def thin_png_def)

lemma place_thin_png:
  "place_image \<lparr>cols = 3, rows = 1, cell_w = 400, cell_h = 630\<rparr> 1 thin_png = Inl ValueError"
  by (simp add: place_image_def scaled_size_def int_truediv_def int_to_float_def
      float_truediv_def float_mul_def py_int_def f64_round_def f64_ulp_def ilog2.simps
      round_half_even_def b_png_def thin_png_def)

lemma place_thin_png_0:
  "place_image \<lparr>cols = 3, rows = 1, cell_w = 400, cell_h = 630\<rparr> 0 thin_png = Inl ValueError"
  by (simp add: place_image_def scaled_size_def int_truediv_def int_to_float_def
      float_truediv_def float_mul_def py_int_def f64_round_def f64_ulp_def ilog2.simps
      round_half_even_def b_png_def thin_png_def)

lemma layout_one_image:
  "solve_layout 1 1200 630 = Inr \<lparr>cols = 3, rows = 1, cell_w = 400, cell_h = 630\<rparr>"
  using solve_layout_eval [of 1 1200 630] by (simp add: cols_int_def ceiling_divide_eq_div [of 1 3, simplified])

lemma layout_two_images:
  "solve_layout 2 1200 630 = Inr \<lparr>cols = 3, rows = 1, cell_w = 400, cell_h = 630\<rparr>"
  using solve_layout_eval [of 2 1200 630] by (simp add: cols_int_def ceiling_divide_eq_div [of 2 3, simplified])

section \<open>The layout claims\<close>

lemma solve_layout_eval_int:
  assumes "1 \<le> n" "n < 2 ^ 48" "0 < base_w" "0 < base_h" "base_h \<le> 2 ^ 41"
    "n * base_w < 2 ^ 1023"
  shows "solve_layout n base_w base_h =
     Inr \<lparr>cols = cols_int (n * base_w) base_h,
          rows = - ((- n) div cols_int (n * base_w) base_h),
          cell_w = base_w div cols_int (n * base_w) base_h,
          cell_h = base_h div (- ((- n) div cols_int (n * base_w) base_h))\<rparr>"
  using solve_layout_eval [OF assms] by (simp only: ceiling_divide_eq_div)

text \<open>
  Claim C2, within the reach of binary64. For \<open>1 \<le> n < 2 ^ 48\<close>, a positive width,
  a height between 1 and \<open>2 ^ 41\<close> and \<open>n * canvas_w < 2 ^ 1023\<close>, the layout computed
  by the code in floats is the one the specification words with exact numbers: the
  column count is the ceiling of the square root of \<open>n * canvas_w / canvas_h\<close> clamped
  to 3..12, the row count is the ceiling of \<open>n / cols\<close>, and the cell sizes are the
  floor quotients of the canvas sizes.
\<close>

theorem solve_layout_refines_spec:
  assumes "1 \<le> n" "n < 2 ^ 48" "0 < canvas_w" "0 < canvas_h" "canvas_h \<le> 2 ^ 41"
    "n * canvas_w < 2 ^ 1023"
  shows "solve_layout n canvas_w canvas_h = Inr (spec_layout n canvas_w canvas_h)"
proof -
  have c: "clamp \<lceil>sqrt (real_of_int n * real_of_int canvas_w / real_of_int canvas_h)\<rceil> 3 12
           = cols_int (n * canvas_w) canvas_h"
    using cols_of_real [OF assms(4), of "n * canvas_w"]
    by (simp only: clamp_max_min of_int_mult)
  show ?thesis
    unfolding solve_layout_eval [OF assms] spec_layout_def c Let_def
    by (rule refl)
qed

theorem solve_layout_refines_spec_witness:
  "(1::int) \<le> 5 \<and> (5::int) < 2 ^ 48 \<and> (0::int) < 1200 \<and> (0::int) < 630
   \<and> (630::int) \<le> 2 ^ 41 \<and> (5::int) * 1200 < 2 ^ 1023
   \<and> solve_layout 5 1200 630 = Inr (spec_layout 5 1200 630)"
  using solve_layout_refines_spec [of 5 1200 630] by simp

text \<open>
  Claim C2 as stated, for every positive size, fails: with \<open>n = 1\<close>, a width of
  \<open>9 * 2 ^ 60 + 1\<close> and a height of \<open>2 ^ 60\<close> the quotient rounds to 9.0 and the code
  makes 3 columns, where the exact formula gives 4.
\<close>

theorem solve_layout_rounding_differs:
  "solve_layout 1 (9 * 2 ^ 60 + 1) (2 ^ 60)
     = Inr \<lparr>cols = 3, rows = 1, cell_w = 3458764513820540928, cell_h = 1152921504606846976\<rparr>
   \<and> cols (spec_layout 1 (9 * 2 ^ 60 + 1) (2 ^ 60)) = 4"
proof
  show "solve_layout 1 (9 * 2 ^ 60 + 1) (2 ^ 60)
     = Inr \<lparr>cols = 3, rows = 1, cell_w = 3458764513820540928, cell_h = 1152921504606846976\<rparr>"
    by (simp add: solve_layout_def int_truediv_def math_sqrt_code rhe_sqrt_def isqrt.simps
        f64_round_def f64_ulp_def ilog2.simps round_half_even_def Let_def)
  have "clamp \<lceil>sqrt (real_of_int 1 * real_of_int (9 * 2 ^ 60 + 1) / real_of_int (2 ^ 60))\<rceil> 3 12
          = cols_int (1 * (9 * 2 ^ 60 + 1)) (2 ^ 60)"
    using cols_of_real [of "2 ^ 60" "1 * (9 * 2 ^ 60 + 1)"]
    by (simp only: clamp_max_min of_int_mult) simp
  then show "cols (spec_layout 1 (9 * 2 ^ 60 + 1) (2 ^ 60)) = 4"
    by (simp add: spec_layout_def Let_def cols_int_def)
qed

text \<open>
  The row count is likewise rounded for a count of images beyond the integers that a
  float holds: the bound on \<open>n\<close> cannot be dropped.
\<close>

lemma huge_count_rounds_rows:
  "solve_layout (12 * 2 ^ 53 + 1) 1200 630
     = Inr \<lparr>cols = 12, rows = 2 ^ 53, cell_w = 100, cell_h = 0\<rparr>"
  by (simp add: solve_layout_def int_truediv_def math_sqrt_code rhe_sqrt_def isqrt.simps
      f64_round_def f64_ulp_def ilog2.simps round_half_even_def Let_def)

text \<open>
  Claim C3. The worked example, 5 thumbnails on a canvas of 1200 by 630. The code gives
  4 columns, not 3, and 2 rows: \<open>5 * 1200 / 630\<close> lies between 9 and 16. The first
  theorem is the example as the code computes it, the second says that the result is not
  3 columns with 2 rows.
\<close>

theorem solve_layout_example:
  "solve_layout 5 1200 630 = Inr \<lparr>cols = 4, rows = 2, cell_w = 300, cell_h = 315\<rparr>"
  using solve_layout_eval_int [of 5 1200 630] by (simp add: cols_int_def)

theorem solve_layout_example_not_3_cols:
  "\<not> (cols (projr (solve_layout 5 1200 630)) = 3 \<and> rows (projr (solve_layout 5 1200 630)) = 2)"
  using solve_layout_eval_int [of 5 1200 630] by (simp add: cols_int_def)

text \<open>
  Claim C4, where the quotient fits a float. For every \<open>n \<ge> 1\<close> and positive canvas
  dimensions with \<open>n * canvas_w < 2 ^ 1023\<close> the layout solver returns a layout with
  between 3 and 12 columns and at least one row, and the grid of cells fits in the
  canvas in both directions.
\<close>

theorem layout_bounds:
  assumes "1 \<le> n" "0 < canvas_w" "0 < canvas_h" "n * canvas_w < 2 ^ 1023"
  shows "\<exists>L. solve_layout n canvas_w canvas_h = Inr L
           \<and> 3 \<le> cols L \<and> cols L \<le> 12 \<and> 1 \<le> rows L
           \<and> cols L * cell_w L \<le> canvas_w \<and> rows L * cell_h L \<le> canvas_h"
proof -
  define cs where "cs = max 3 (min 12 \<lceil>f64_round (sqrt (f64_round
      (real_of_int (n * canvas_w) / real_of_int canvas_h)))\<rceil>)"
  define rs where "rs = \<lceil>f64_round (real_of_int n / real_of_int cs)\<rceil>"
  note s = solve_layout_steps [OF assms, folded cs_def, folded rs_def]
  have cpos: "0 < cs" using s(2) by simp
  have rpos: "0 < rs" using s(4) by simp
  have cw: "cs * (canvas_w div cs) \<le> canvas_w"
    by (rule mult_floor_div_le [OF cpos])
  have rh: "rs * (canvas_h div rs) \<le> canvas_h"
    by (rule mult_floor_div_le [OF rpos])
  show ?thesis
    using s cw rh by simp
qed

theorem layout_bounds_witness:
  "(1::int) \<le> 5 \<and> (0::int) < 1200 \<and> (0::int) < 630 \<and> (5::int) * 1200 < 2 ^ 1023
   \<and> (\<exists>L. solve_layout 5 1200 630 = Inr L
           \<and> 3 \<le> cols L \<and> cols L \<le> 12 \<and> 1 \<le> rows L
           \<and> cols L * cell_w L \<le> 1200 \<and> rows L * cell_h L \<le> 630)"
  using layout_bounds [of 5 1200 630] by simp

text \<open>
  Claim C4 as stated, for every positive size, fails: on a canvas \<open>10 ^ 400\<close> wide and
  1 high the first division raises \<open>OverflowError\<close>, and no layout is returned.
\<close>

theorem solve_layout_overflows:
  "solve_layout 1 (10 ^ 400) 1 = Inl OverflowError"
proof -
  have "int_truediv (1 * 10 ^ 400) 1 = Inl OverflowError"
    by (rule int_truediv_overflow) simp_all
  then show ?thesis by (simp add: solve_layout_def)
qed

section \<open>The builder claims\<close>

lemma compose_b_png:
  "compose_collage one_file_env [b_png] (Path ''.'') 1200 630 ''t'' =
     (Inr (Some ''data:image/png;base64,'', Some (Join (Path ''.'') ''grid-cover-t.png'')),
      [Print (MsgBuilding 1 \<lparr>cols = 3, rows = 1, cell_w = 400, cell_h = 630\<rparr> 1200 630),
       Print MsgRealEncoded,
       SaveFile (Join (Path ''.'') ''grid-cover-t.png'')
         (GaussianBlur 9 (Canvas 1200 630 (0, 0, 0)
            [\<lparr>resized_from = b_png, new_w = 400, new_h = 200, at_x = 0, at_y = 215\<rparr>])),
       Print (MsgCoverSaved (Join (Path ''.'') ''grid-cover-t.png''))])"
  by (simp add: compose_collage_def layout_one_image place_b_png one_file_env_def Let_def)

lemma compose_thin_png:
  "compose_collage two_file_env [thin_png] (Path ''.'') 1200 630 ''t'' =
     (Inl ValueError,
      [Print (MsgBuilding 1 \<lparr>cols = 3, rows = 1, cell_w = 400, cell_h = 630\<rparr> 1200 630)])"
  by (simp add: compose_collage_def layout_one_image place_thin_png_0 Let_def)

text \<open>
  Claim C6. When no tile has a thumbnail source, or none of the sources loads, the
  builder leaves by one of its early returns: it returns no data URI and no cover path,
  and all it does is print one line. No layout is computed, no canvas is made and no
  file is saved; the return is a normal one, not an exception.
\<close>

theorem empty_thumbnail_set_skips_compositing:
  assumes "collect_thumb_srcs tiles max_cells [] = []
           \<or> load_images E rt (collect_thumb_srcs tiles max_cells []) = []"
  shows "build_collages_for_33T E tiles rt max_cells base_w base_h ts =
     (Inr (None, None),
      [Print (if max_cells \<le> 0 then MsgCollageDisabled
              else if collect_thumb_srcs tiles max_cells [] = [] then MsgNoThumbnails
              else MsgLoadFailed)])"
  using assms by (intro build_early_exit) blast

theorem empty_thumbnail_set_skips_compositing_witness:
  "(collect_thumb_srcs [tile_of ''a.png''] 63 [] = []
    \<or> load_images one_file_env (Path ''.'') (collect_thumb_srcs [tile_of ''a.png''] 63 []) = [])
   \<and> build_collages_for_33T one_file_env [tile_of ''a.png''] (Path ''.'') 63 1200 630 ''t''
       = (Inr (None, None), [Print MsgLoadFailed])"
proof -
  have c: "collect_thumb_srcs [tile_of ''a.png''] 63 [] = [''a.png'']"
    by (simp add: tile_of_def)
  have l: "load_images one_file_env (Path ''.'') [''a.png''] = []"
    by (simp add: a_png_missing)
  show ?thesis
    using empty_thumbnail_set_skips_compositing
      [of "[tile_of ''a.png'']" 63 one_file_env "Path ''.''" 1200 630 "''t''"]
    unfolding c l by simp
qed

lemma collect_a_b:
  "collect_thumb_srcs [tile_of ''a.png'', tile_of ''b.png''] 63 [] = [''a.png'', ''b.png'']"
  by (simp add: tile_of_def)

lemma load_a_b: "load_images one_file_env (Path ''.'') [''a.png'', ''b.png''] = [b_png]"
  by (simp add: a_png_missing b_png_loads)

lemma build_a_b:
  "build_collages_for_33T one_file_env [tile_of ''a.png'', tile_of ''b.png''] (Path ''.'')
     63 1200 630 ''t''
   = compose_collage one_file_env [b_png] (Path ''.'') 1200 630 ''t''"
  unfolding build_collages_for_33T_def collect_a_b load_a_b Let_def by simp

lemma collect_thin:
  "collect_thumb_srcs [tile_of ''thin.png''] 63 [] = [''thin.png'']"
  by (simp add: tile_of_def)

lemma load_thin: "load_images two_file_env (Path ''.'') [''thin.png''] = [thin_png]"
  by (simp add: thin_png_loads)




text \<open>
  Claim C9, with the third outcome that the code has. On every input exactly one of
  three things happens: the builder returns early with neither output and saves nothing
  (when \<open>max_cells \<le> 0\<close>, no source was collected or no image loaded); or it raises,
  and no cover is saved; or it returns both the data URI and the cover path, and the one
  file saved, at that path, is the blur of the very canvas that the data URI encodes.
  A cover without its composite, or a composite without its cover, never occurs.
\<close>

theorem collage_outputs_coupled:
  "(let r = build_collages_for_33T E tiles rt max_cells base_w base_h ts;
        imgs = load_images E rt (collect_thumb_srcs tiles max_cells []);
        early = (max_cells \<le> 0 \<or> collect_thumb_srcs tiles max_cells [] = [] \<or> imgs = []);
        cover_path = Join rt (''grid-cover-'' @ ts @ ''.png'')
    in (early \<and> fst r = Inr (None, None) \<and> saved_files (snd r) = [])
         \<or> (\<not> early \<and> (\<exists>e. fst r = Inl e) \<and> saved_files (snd r) = [])
         \<or> (\<not> early
              \<and> (\<exists>ps. fst r = Inr (Some (''data:image/png;base64,''
                                            @ b64encode E (png_encode E
                                                (Canvas base_w base_h (0, 0, 0) ps))),
                                     Some cover_path)
                       \<and> saved_files (snd r)
                           = [(cover_path, GaussianBlur 9 (Canvas base_w base_h (0, 0, 0) ps))])))"
proof -
  define imgs where "imgs = load_images E rt (collect_thumb_srcs tiles max_cells [])"
  define early where
    "early = (max_cells \<le> 0 \<or> collect_thumb_srcs tiles max_cells [] = [] \<or> imgs = [])"
  define r where "r = build_collages_for_33T E tiles rt max_cells base_w base_h ts"
  define cover_path where "cover_path = Join rt (''grid-cover-'' @ ts @ ''.png'')"
  have e: "fst r = Inr (None, None) \<and> saved_files (snd r) = []" if early
    using that build_early_exit [of max_cells tiles E rt base_w base_h ts]
    unfolding early_def imgs_def r_def by simp
  have c: "r = compose_collage E imgs rt base_w base_h ts" if "\<not> early"
    using that build_composes [of max_cells E rt tiles base_w base_h ts]
    unfolding early_def imgs_def r_def by simp
  have cases: "(\<exists>e. fst r = Inl e) \<and> saved_files (snd r) = []
      \<or> (\<exists>ps. fst r = Inr (Some (''data:image/png;base64,''
                                   @ b64encode E (png_encode E (Canvas base_w base_h (0, 0, 0) ps))),
                            Some cover_path)
              \<and> saved_files (snd r)
                  = [(cover_path, GaussianBlur 9 (Canvas base_w base_h (0, 0, 0) ps))])"
    if "\<not> early"
    using compose_collage_cases [of E imgs rt base_w base_h ts]
    unfolding c [OF that] cover_path_def by auto
  have "(early \<and> fst r = Inr (None, None) \<and> saved_files (snd r) = [])
         \<or> (\<not> early \<and> (\<exists>e. fst r = Inl e) \<and> saved_files (snd r) = [])
         \<or> (\<not> early
              \<and> (\<exists>ps. fst r = Inr (Some (''data:image/png;base64,''
                                            @ b64encode E (png_encode E
                                                (Canvas base_w base_h (0, 0, 0) ps))),
                                     Some cover_path)
                       \<and> saved_files (snd r)
                           = [(cover_path, GaussianBlur 9 (Canvas base_w base_h (0, 0, 0) ps))]))"
    using e cases by blast
  then show ?thesis
    unfolding Let_def early_def imgs_def r_def cover_path_def .
qed

theorem collage_outputs_coupled_witness:
  "\<not> ((63::int) \<le> 0 \<or> [''a.png'', ''b.png''] = [] \<or> [b_png] = [])
   \<and> (\<exists>ps. fst (build_collages_for_33T one_file_env [tile_of ''a.png'', tile_of ''b.png'']
                  (Path ''.'') 63 1200 630 ''t'')
              = Inr (Some (''data:image/png;base64,''
                           @ b64encode one_file_env (png_encode one_file_env
                               (Canvas 1200 630 (0, 0, 0) ps))),
                     Some (Join (Path ''.'') (''grid-cover-'' @ ''t'' @ ''.png'')))
            \<and> saved_files (snd (build_collages_for_33T one_file_env
                  [tile_of ''a.png'', tile_of ''b.png''] (Path ''.'') 63 1200 630 ''t''))
                = [(Join (Path ''.'') (''grid-cover-'' @ ''t'' @ ''.png''),
                    GaussianBlur 9 (Canvas 1200 630 (0, 0, 0) ps))])"
proof -
  note t = collage_outputs_coupled [of one_file_env "[tile_of ''a.png'', tile_of ''b.png'']"
      "Path ''.''" 63 1200 630 "''t''", unfolded Let_def collect_a_b load_a_b]
  have ne: "\<not> ((63::int) \<le> 0 \<or> [''a.png'', ''b.png''] = [] \<or> [b_png] = [])"
    by simp
  have v: "\<not> (\<exists>e. fst (build_collages_for_33T one_file_env [tile_of ''a.png'', tile_of ''b.png'']
                  (Path ''.'') 63 1200 630 ''t'') = Inl e)"
    by (simp add: build_a_b compose_b_png)
  from t ne v show ?thesis by blast
qed

text \<open>
  Claim C9 as stated, with two outcomes only, fails: an image of 700 by 1 loads, but
  its scaled height is 0 and \<open>resize\<close> raises; the builder then returns nothing at all.
\<close>

theorem builder_raises_on_thin_image:
  "build_collages_for_33T two_file_env [tile_of ''thin.png''] (Path ''.'') 63 1200 630 ''t''
     = (Inl ValueError,
        [Print (MsgBuilding 1 \<lparr>cols = 3, rows = 1, cell_w = 400, cell_h = 630\<rparr> 1200 630)])"
  unfolding build_collages_for_33T_def collect_thin load_thin Let_def
  by (simp add: compose_thin_png)

text \<open>
  Claim C10, as far as it holds. With the layout computed from the number of loaded
  images, fewer than \<open>2 ^ 48\<close> of them, every index below that number has its row below
  \<open>rows\<close>. So the placement loop never takes its \<open>break\<close>: it is the loop without
  the test, which ends when the images are exhausted or when the placement of one
  raises. When it ends without an exception, it has pasted every loaded image, the image
  of index \<open>k\<close> at column \<open>k mod cols\<close> and row \<open>k div cols\<close>.
\<close>

theorem capacity_break_unreachable:
  assumes "solve_layout (int (length imgs)) base_w base_h = Inr L"
    and "int (length imgs) < 2 ^ 48"
  shows "(\<forall>idx. 0 \<le> idx \<and> idx < int (length imgs) \<longrightarrow> idx div cols L < rows L)
       \<and> paste_loop L 0 imgs [] = paste_all L 0 imgs []
       \<and> (\<forall>ps. paste_loop L 0 imgs [] = Inr ps \<longrightarrow>
             length ps = length imgs
             \<and> (\<forall>k<length imgs.
                   resized_from (ps ! k) = imgs ! k
                   \<and> at_x (ps ! k) = (int k mod cols L) * cell_w L
                                        + (cell_w L - new_w (ps ! k)) div 2
                   \<and> at_y (ps ! k) = (int k div cols L) * cell_h L
                                        + (cell_h L - new_h (ps ! k)) div 2))"
proof (intro conjI)
  show "\<forall>idx. 0 \<le> idx \<and> idx < int (length imgs) \<longrightarrow> idx div cols L < rows L"
    by (rule no_break_of_layout [OF assms])
  show eq: "paste_loop L 0 imgs [] = paste_all L 0 imgs []"
    by (rule paste_loop_of_layout [OF assms])
  show "\<forall>ps. paste_loop L 0 imgs [] = Inr ps \<longrightarrow>
             length ps = length imgs
             \<and> (\<forall>k<length imgs.
                   resized_from (ps ! k) = imgs ! k
                   \<and> at_x (ps ! k) = (int k mod cols L) * cell_w L
                                        + (cell_w L - new_w (ps ! k)) div 2
                   \<and> at_y (ps ! k) = (int k div cols L) * cell_h L
                                        + (cell_h L - new_h (ps ! k)) div 2)"
  proof (intro allI impI)
    fix ps assume "paste_loop L 0 imgs [] = Inr ps"
    then have "paste_all L 0 imgs [] = Inr ps" by (simp only: eq)
    from paste_all_result [OF this] obtain qs where qs: "ps = [] @ qs" "length qs = length imgs"
      "\<forall>k<length imgs. place_image L (0 + int k) (imgs ! k) = Inr (qs ! k)"
      by blast
    have len: "length ps = length imgs" using qs(1,2) by simp
    have each: "resized_from (ps ! k) = imgs ! k
                   \<and> at_x (ps ! k) = (int k mod cols L) * cell_w L
                                        + (cell_w L - new_w (ps ! k)) div 2
                   \<and> at_y (ps ! k) = (int k div cols L) * cell_h L
                                        + (cell_h L - new_h (ps ! k)) div 2"
      if "k < length imgs" for k
    proof -
      have "place_image L (int k) (imgs ! k) = Inr (ps ! k)"
        using qs(1,3) that by simp
      from place_image_fields(1,2,3) [OF this] show ?thesis by blast
    qed
    show "length ps = length imgs
             \<and> (\<forall>k<length imgs.
                   resized_from (ps ! k) = imgs ! k
                   \<and> at_x (ps ! k) = (int k mod cols L) * cell_w L
                                        + (cell_w L - new_w (ps ! k)) div 2
                   \<and> at_y (ps ! k) = (int k div cols L) * cell_h L
                                        + (cell_h L - new_h (ps ! k)) div 2)"
      using len each by blast
  qed
qed

lemma layout_b_b:
  "solve_layout (int (length [b_png, b_png])) 1200 630
     = Inr \<lparr>cols = 3, rows = 1, cell_w = 400, cell_h = 630\<rparr>"
  using layout_two_images by simp

theorem capacity_break_unreachable_witness:
  "solve_layout (int (length [b_png, b_png])) 1200 630
     = Inr \<lparr>cols = 3, rows = 1, cell_w = 400, cell_h = 630\<rparr>
   \<and> int (length [b_png, b_png]) < 2 ^ 48
   \<and> 1 div cols \<lparr>cols = 3, rows = 1, cell_w = 400, cell_h = 630\<rparr>
       < rows \<lparr>cols = 3, rows = 1, cell_w = 400, cell_h = 630\<rparr>
   \<and> paste_loop \<lparr>cols = 3, rows = 1, cell_w = 400, cell_h = 630\<rparr> 0 [b_png, b_png] []
      = paste_all \<lparr>cols = 3, rows = 1, cell_w = 400, cell_h = 630\<rparr> 0 [b_png, b_png] []
   \<and> paste_loop \<lparr>cols = 3, rows = 1, cell_w = 400, cell_h = 630\<rparr> 0 [b_png, b_png] []
      = Inr [\<lparr>resized_from = b_png, new_w = 400, new_h = 200, at_x = 0, at_y = 215\<rparr>,
             \<lparr>resized_from = b_png, new_w = 400, new_h = 200, at_x = 400, at_y = 215\<rparr>]"
proof -
  have n: "int (length [b_png, b_png]) < 2 ^ 48" by simp
  note t = capacity_break_unreachable [OF layout_b_b n]
  have i: "1 div cols \<lparr>cols = 3, rows = 1, cell_w = 400, cell_h = 630\<rparr>
       < rows \<lparr>cols = 3, rows = 1, cell_w = 400, cell_h = 630\<rparr>"
    using conjunct1 [OF t, rule_format, of 1] by simp
  have e: "paste_loop \<lparr>cols = 3, rows = 1, cell_w = 400, cell_h = 630\<rparr> 0 [b_png, b_png] []
      = paste_all \<lparr>cols = 3, rows = 1, cell_w = 400, cell_h = 630\<rparr> 0 [b_png, b_png] []"
    by (rule conjunct1 [OF conjunct2 [OF t]])
  have v: "paste_loop \<lparr>cols = 3, rows = 1, cell_w = 400, cell_h = 630\<rparr> 0 [b_png, b_png] []
      = Inr [\<lparr>resized_from = b_png, new_w = 400, new_h = 200, at_x = 0, at_y = 215\<rparr>,
             \<lparr>resized_from = b_png, new_w = 400, new_h = 200, at_x = 400, at_y = 215\<rparr>]"
    by (simp add: place_b_png place_b_png_1)
  show ?thesis
    by (intro conjI layout_b_b n i e v)
qed

text \<open>
  Claim C10 as stated fails in its last part: not every loaded image is pasted. With an
  image of 800 by 400 followed by one of 700 by 1, the first is placed and the resize of
  the second raises, so the loop ends by an exception with the second image not pasted.
\<close>

theorem thin_image_is_not_pasted:
  "solve_layout (int (length [b_png, thin_png])) 1200 630
     = Inr \<lparr>cols = 3, rows = 1, cell_w = 400, cell_h = 630\<rparr>
   \<and> paste_loop \<lparr>cols = 3, rows = 1, cell_w = 400, cell_h = 630\<rparr> 0 [b_png, thin_png] []
      = Inl ValueError"
proof
  show "solve_layout (int (length [b_png, thin_png])) 1200 630
     = Inr \<lparr>cols = 3, rows = 1, cell_w = 400, cell_h = 630\<rparr>"
    using layout_two_images by simp
  show "paste_loop \<lparr>cols = 3, rows = 1, cell_w = 400, cell_h = 630\<rparr> 0 [b_png, thin_png] []
      = Inl ValueError"
    by (simp add: place_b_png place_thin_png)
qed

section \<open>The empty passphrase\<close>

text \<open>
  Claim C5. With the AES lock on and an empty passphrase entered, the writing of the B
  file stops with \<open>sys.exit(1)\<close> after the prompt and the message: the random
  source, the KDF and the cipher are never called, and nothing is written.
\<close>

theorem empty_passphrase_rejected:
  "write_html_b E True obfuscate html [] og_image_rel html_b_path
     = (Inl (SystemExit 1), [Print MsgAesPrompt, Getpass, Print MsgEmptyPassword])
   \<and> filter is_crypto (snd (write_html_b E True obfuscate html [] og_image_rel html_b_path)) = []"
  by (simp add: write_html_b_def)

text \<open>With a passphrase that is not empty the same path does reach the KDF and the cipher.\<close>

lemma nonempty_passphrase_derives_key:
  assumes "pw \<noteq> []"
  shows "filter is_crypto (snd (write_html_b E True obfuscate html pw og_image_rel html_b_path))
     = [OsUrandom 16, OsUrandom 12, KdfDerive (utf8_encode E pw),
        AesGcmEncrypt (map (os_urandom E) [16..<28]) (utf8_encode E html)]"
  using assms
  by (simp add: write_html_b_def make_aes_protected_wrapper_def encrypt_html_aes_gcm_def
      Let_def split: prod.splits)

end
